theory Spec2Isabelle
  imports Complex_Main "HOL-Library.Log_Nat"
begin

section \<open>JavaScript strings\<close>

text \<open>
  A JavaScript string is a sequence of UTF-16 code units. The model uses \<^typ>\<open>string\<close>
  and reads every \<^typ>\<open>char\<close> as one code unit below 256; code units from 256 on are
  outside the model (of those, \<open>String.prototype.trim\<close> also strips U+1680,
  U+2000..U+200A, U+2028, U+2029, U+202F, U+205F, U+3000 and U+FEFF; \<open>split\<close>,
  \<open>indexOf\<close> and the pattern of \<open>parseError\<close> treat them as ordinary characters).
\<close>

definition NL :: char where
  "NL = CHR 0x0A"

text \<open>The white space and line terminators that \<open>trim\<close> strips, below 256:
  TAB, LF, VT, FF, CR, SP and NBSP.\<close>

definition isWhiteSpace :: "char \<Rightarrow> bool" where
  "isWhiteSpace c \<longleftrightarrow>
     c = CHR 0x09 \<or> c = CHR 0x0A \<or> c = CHR 0x0B \<or> c = CHR 0x0C \<or> c = CHR 0x0D
     \<or> c = CHR 0x20 \<or> c = CHR 0xA0"

definition trim :: "string \<Rightarrow> string" where
  "trim s = rev (dropWhile isWhiteSpace (rev (dropWhile isWhiteSpace s)))"

text \<open>\<open>s.split('\n')\<close>: the pieces between the line feeds; never empty
  (\<open>''.split('\n')\<close> is \<open>['']\<close>).\<close>

fun split_nl :: "string \<Rightarrow> string list" where
  "split_nl [] = [[]]"
| "split_nl (c # cs) =
     (if c = NL then [] # split_nl cs
      else (case split_nl cs of [] \<Rightarrow> [[c]] | l # ls \<Rightarrow> (c # l) # ls))"

text \<open>\<open>lines.join('\n')\<close>.\<close>

fun join_nl :: "string list \<Rightarrow> string" where
  "join_nl [] = []"
| "join_nl [l] = l"
| "join_nl (l # ls) = l @ NL # join_nl ls"

text \<open>\<open>s.indexOf(c)\<close> for a one-character needle: the index of its first occurrence,
  \<open>-1\<close> when there is none.\<close>

fun indexOf :: "char \<Rightarrow> string \<Rightarrow> int" where
  "indexOf c [] = - 1"
| "indexOf c (x # xs) =
     (if x = c then 0 else (let i = indexOf c xs in if i = - 1 then - 1 else i + 1))"

text \<open>\<open>s.substring(start)\<close>: a start below 0 counts as 0, one beyond the length
  as the length.\<close>

definition substring :: "string \<Rightarrow> int \<Rightarrow> string" where
  "substring s start = drop (nat start) s"

section \<open>Input stripping (\<open>extractInputValue\<close>, TestBuddy.tsx)\<close>

definition stripLine :: "string \<Rightarrow> string" where
  "stripLine line =
     (let eqIndex = indexOf CHR ''='' line
      in if eqIndex > - 1 then trim (substring line (eqIndex + 1)) else trim line)"

definition extractInputValue :: "string \<Rightarrow> string" where
  "extractInputValue input = join_nl (map stripLine (split_nl input))"

text \<open>The rule in the words of the specification: of a line with an equals sign only
  the text after the first one is kept, trimmed; any other line is kept, trimmed.\<close>

definition afterFirstEq :: "string \<Rightarrow> string" where
  "afterFirstEq line = tl (dropWhile (\<lambda>c. c \<noteq> CHR ''='') line)"

definition stripLine_spec :: "string \<Rightarrow> string" where
  "stripLine_spec line =
     (if CHR ''='' \<in> set line then trim (afterFirstEq line) else trim line)"

text \<open>The number of newline-separated lines of a text.\<close>

definition lineCount :: "string \<Rightarrow> nat" where
  "lineCount s = length (split_nl s)"

section \<open>JavaScript numbers\<close>

text \<open>
  A Number is an IEEE 754 binary64 value. The finite ones are modelled by the rational
  they denote (the sign of zero is not modelled); \<open>Infinity True\<close> is \<open>+Infinity\<close>.
\<close>

datatype js_number = NaN | Infinity bool | Fin rat

text \<open>\<open>ilog2 x\<close> is the binary exponent of a positive rational:
  \<open>2 powi ilog2 x \<le> x < 2 powi (ilog2 x + 1)\<close>.\<close>

definition ilog2 :: "rat \<Rightarrow> int" where
  "ilog2 x = (if 1 \<le> x then bitlen \<lfloor>x\<rfloor> - 1 else - bitlen (\<lceil>1 / x\<rceil> - 1))"

text \<open>Rounding to the nearest integer, a tie going to the even one.\<close>

definition roundEven :: "rat \<Rightarrow> int" where
  "roundEven m =
     (let f = \<lfloor>m\<rfloor>; d = m - of_int f
      in if d < 1 / 2 then f else if 1 / 2 < d then f + 1 else if even f then f else f + 1)"

text \<open>Rounding a rational to binary64, to nearest, ties to even: 53 significant bits,
  the exponent of the last place never below \<open>-1074\<close> (gradual underflow). Overflow is
  decided in \<open>js_of_rat\<close>.\<close>

definition flpos :: "rat \<Rightarrow> rat" where
  "flpos x = (let e = max (ilog2 x - 52) (- 1074) in of_int (roundEven (x / 2 powi e)) * 2 powi e)"

definition fl :: "rat \<Rightarrow> rat" where
  "fl x = (if x = 0 then 0 else if x < 0 then - flpos (- x) else flpos x)"

definition js_of_rat :: "rat \<Rightarrow> js_number" where
  "js_of_rat q =
     (let r = fl q
      in if 2 powi 1024 \<le> r then Infinity True
         else if r \<le> - (2 powi 1024) then Infinity False
         else Fin r)"

text \<open>The operators \<open>/\<close> and \<open>*\<close> on Numbers.\<close>

fun js_div :: "js_number \<Rightarrow> js_number \<Rightarrow> js_number" where
  "js_div (Fin a) (Fin b) =
     (if b = 0 then (if a = 0 then NaN else Infinity (0 < a)) else js_of_rat (a / b))"
| "js_div (Fin a) (Infinity s) = Fin 0"
| "js_div (Infinity s) (Fin b) = Infinity (s = (0 \<le> b))"
| "js_div _ _ = NaN"

fun js_mul :: "js_number \<Rightarrow> js_number \<Rightarrow> js_number" where
  "js_mul (Fin a) (Fin b) = js_of_rat (a * b)"
| "js_mul (Fin a) (Infinity s) = (if a = 0 then NaN else Infinity (s = (0 < a)))"
| "js_mul (Infinity s) (Fin b) = (if b = 0 then NaN else Infinity (s = (0 < b)))"
| "js_mul (Infinity s) (Infinity t) = Infinity (s = t)"
| "js_mul _ _ = NaN"

text \<open>
  \<open>x.toFixed(2)\<close> gives a text: \<open>"NaN"\<close>, \<open>"Infinity"\<close> with its sign, the decimal
  notation with two fraction digits (held as the signed number of hundredths), or, from
  \<open>10^21\<close> on, the shortest notation that reads back as \<open>x\<close>. Of the integers \<open>n\<close>
  with \<open>n / 100\<close> nearest to \<open>x\<close> the larger one is taken.
\<close>

datatype number_text = TextNaN | TextInfinity bool | TextFixed int | TextExponent rat

fun toFixed2 :: "js_number \<Rightarrow> number_text" where
  "toFixed2 NaN = TextNaN"
| "toFixed2 (Infinity s) = TextInfinity s"
| "toFixed2 (Fin x) =
     (if 10 ^ 21 \<le> \<bar>x\<bar> then TextExponent x
      else if x < 0 then TextFixed (- \<lfloor>- x * 100 + 1 / 2\<rfloor>)
      else TextFixed \<lfloor>x * 100 + 1 / 2\<rfloor>)"

fun parseFloat :: "number_text \<Rightarrow> js_number" where
  "parseFloat TextNaN = NaN"
| "parseFloat (TextInfinity s) = Infinity s"
| "parseFloat (TextFixed k) = js_of_rat (of_int k / 100)"
| "parseFloat (TextExponent x) = Fin x"

text \<open>\<open>a || b\<close> on optional strings: \<open>undefined\<close> and the empty string are falsy.\<close>

definition js_or :: "string option \<Rightarrow> string option \<Rightarrow> string option" where
  "js_or a b = (case a of Some (c # cs) \<Rightarrow> a | _ \<Rightarrow> b)"

definition js_or_str :: "string option \<Rightarrow> string \<Rightarrow> string" where
  "js_or_str a b = (case a of Some (c # cs) \<Rightarrow> c # cs | _ \<Rightarrow> b)"

definition isDigit :: "char \<Rightarrow> bool" where
  "isDigit c \<longleftrightarrow> (48::nat) \<le> of_char c \<and> of_char c \<le> (57::nat)"

definition decimalValue :: "string \<Rightarrow> nat" where
  "decimalValue ds = foldl (\<lambda>n c. 10 * n + (of_char c - 48)) 0 ds"

text \<open>
  \<open>parseInt(x, 10)\<close> where \<open>x\<close> is \<open>undefined\<close> or begins with its digits (what
  \<open>parseError\<close> passes; leading white space and a sign are not modelled): the value of
  the leading run of decimal digits as a Number, \<open>NaN\<close> when there is none.
\<close>

definition parseInt10 :: "string option \<Rightarrow> js_number" where
  "parseInt10 x =
     (case x of
        None \<Rightarrow> NaN
      | Some s \<Rightarrow>
          (let ds = takeWhile isDigit s
           in if ds = [] then NaN else js_of_rat (of_nat (decimalValue ds))))"

section \<open>Patterns\<close>

text \<open>
  The part of the ECMAScript pattern language that \<open>parseError\<close> uses: a literal
  character sequence, a character class of ranges, the greedy \<open>+\<close> of a class,
  concatenation, ordered alternation and capture groups. A matcher yields the ways to
  match at the start of a text, in the order in which backtracking tries them: each is
  the rest of the text with the captures made so far.
\<close>

datatype pattern =
    Str string
  | PlusCls "(char \<times> char) list"
  | Seq pattern pattern
  | Alt pattern pattern
  | Group nat pattern

type_synonym captures = "nat \<Rightarrow> string option"

text \<open>
  Flag \<open>i\<close> compares canonical forms, the upper-case letter of each character. Only
  the ASCII letters are mapped here: the canonical form of any other character below 256
  is never an ASCII character, so those match no ASCII literal and no ASCII class, with
  or without the flag.
\<close>

definition toUpperCase :: "char \<Rightarrow> char" where
  "toUpperCase c =
     (if (97::nat) \<le> of_char c \<and> of_char c \<le> (122::nat) then char_of (of_char c - (32::nat)) else c)"

definition toLowerCase :: "char \<Rightarrow> char" where
  "toLowerCase c =
     (if (65::nat) \<le> of_char c \<and> of_char c \<le> (90::nat) then char_of (of_char c + (32::nat)) else c)"

definition charMatches :: "bool \<Rightarrow> char \<Rightarrow> char \<Rightarrow> bool" where
  "charMatches ignoreCase a c = (if ignoreCase then toUpperCase a = toUpperCase c else a = c)"

definition inRanges :: "(char \<times> char) list \<Rightarrow> char \<Rightarrow> bool" where
  "inRanges rs c =
     list_ex (\<lambda>r. (of_char (fst r) :: nat) \<le> of_char c \<and> (of_char c :: nat) \<le> of_char (snd r)) rs"

definition classMatches :: "bool \<Rightarrow> (char \<times> char) list \<Rightarrow> char \<Rightarrow> bool" where
  "classMatches ignoreCase rs c =
     (if ignoreCase then inRanges rs (toUpperCase c) \<or> inRanges rs (toLowerCase c)
      else inRanges rs c)"

text \<open>A literal sequence at the start of a text: the rest after it.\<close>

fun stripLiteral :: "bool \<Rightarrow> string \<Rightarrow> string \<Rightarrow> string option" where
  "stripLiteral ignoreCase [] s = Some s"
| "stripLiteral ignoreCase (a # as) [] = None"
| "stripLiteral ignoreCase (a # as) (c # cs) =
     (if charMatches ignoreCase a c then stripLiteral ignoreCase as cs else None)"

text \<open>The rests after one or more characters of a class, the longest run first.\<close>

fun plusRests :: "(char \<Rightarrow> bool) \<Rightarrow> string \<Rightarrow> string list" where
  "plusRests p [] = []"
| "plusRests p (c # cs) = (if p c then plusRests p cs @ [cs] else [])"

fun matches :: "bool \<Rightarrow> pattern \<Rightarrow> string \<times> captures \<Rightarrow> (string \<times> captures) list" where
  "matches ignoreCase (Str w) (s, g) =
     (case stripLiteral ignoreCase w s of None \<Rightarrow> [] | Some r \<Rightarrow> [(r, g)])"
| "matches ignoreCase (PlusCls rs) (s, g) =
     map (\<lambda>r. (r, g)) (plusRests (classMatches ignoreCase rs) s)"
| "matches ignoreCase (Seq p q) x = concat (map (matches ignoreCase q) (matches ignoreCase p x))"
| "matches ignoreCase (Alt p q) x = matches ignoreCase p x @ matches ignoreCase q x"
| "matches ignoreCase (Group n p) (s, g) =
     map (\<lambda>y. (fst y, (snd y)(n \<mapsto> take (length s - length (fst y)) s)))
       (matches ignoreCase p (s, g))"

text \<open>\<open>text.match(pattern)\<close> without flag \<open>g\<close>: the first way to match at the leftmost
  position that has one; the result is held as its captures.\<close>

fun exec :: "bool \<Rightarrow> pattern \<Rightarrow> string \<Rightarrow> captures option" where
  "exec ignoreCase p [] =
     (case matches ignoreCase p ([], Map.empty) of [] \<Rightarrow> None | y # _ \<Rightarrow> Some (snd y))"
| "exec ignoreCase p (c # cs) =
     (case matches ignoreCase p (c # cs, Map.empty) of
        [] \<Rightarrow> exec ignoreCase p cs
      | y # _ \<Rightarrow> Some (snd y))"

section \<open>The Diagnostic Extractor (\<open>parseError\<close>, TestBuddy.tsx)\<close>

record Diagnostic =
  lineNumber :: js_number
  message :: string

text \<open>\<open>[a-zA-Z0-9\/\._-]\<close> and \<open>\d\<close>.\<close>

definition pathClass :: "(char \<times> char) list" where
  "pathClass =
     [(CHR ''a'', CHR ''z''), (CHR ''A'', CHR ''Z''), (CHR ''0'', CHR ''9''),
      (CHR ''/'', CHR ''/''), (CHR ''.'', CHR ''.''), (CHR ''_'', CHR ''_''),
      (CHR ''-'', CHR ''-'')]"

definition digitClass :: "(char \<times> char) list" where
  "digitClass = [(CHR ''0'', CHR ''9'')]"

text \<open>\<open>/(?:[a-zA-Z0-9\/\._-]+):(\d+)|line (\d+)|\[Line (\d+)\]/i\<close>\<close>

definition parseErrorPattern :: pattern where
  "parseErrorPattern =
     Alt (Seq (PlusCls pathClass) (Seq (Str '':'') (Group 1 (PlusCls digitClass))))
       (Alt (Seq (Str ''line '') (Group 2 (PlusCls digitClass)))
          (Seq (Str ''[Line '') (Seq (Group 3 (PlusCls digitClass)) (Str '']''))))"

definition parseError :: "string \<Rightarrow> Diagnostic option" where
  "parseError errorMessage =
     (if errorMessage = [] then None
      else
        (case exec True parseErrorPattern errorMessage of
           Some match \<Rightarrow>
             Some \<lparr>lineNumber = parseInt10 (js_or (match 1) (js_or (match 2) (match 3))),
                   message = trim errorMessage\<rparr>
         | None \<Rightarrow> Some \<lparr>lineNumber = Fin 1, message = trim errorMessage\<rparr>))"

text \<open>
  The extractor in the words of the specification. A shape is looked for at a position
  of the text: \<open>path:digits\<close>, then \<open>line\<close>, a space and digits, then \<open>[Line digits]\<close>;
  the positions are tried from the left and the first shape found gives the digits.
  \<open>ignoreCase\<close> says whether the words \<open>line\<close> and \<open>Line\<close> are looked for in any
  capitalisation.
\<close>

definition isPathChar :: "char \<Rightarrow> bool" where
  "isPathChar c \<longleftrightarrow>
     (97::nat) \<le> of_char c \<and> of_char c \<le> (122::nat)
     \<or> (65::nat) \<le> of_char c \<and> of_char c \<le> (90::nat)
     \<or> isDigit c \<or> c = CHR ''/'' \<or> c = CHR ''.'' \<or> c = CHR ''_'' \<or> c = CHR ''-''"

definition digitsAt :: "string \<Rightarrow> string option" where
  "digitsAt s = (if takeWhile isDigit s = [] then None else Some (takeWhile isDigit s))"

definition shapePath :: "string \<Rightarrow> string option" where
  "shapePath s =
     (if takeWhile isPathChar s = [] then None
      else (case dropWhile isPathChar s of
              [] \<Rightarrow> None
            | c # cs \<Rightarrow> if c = CHR '':'' then digitsAt cs else None))"

definition shapeLine :: "bool \<Rightarrow> string \<Rightarrow> string option" where
  "shapeLine ignoreCase s =
     (case stripLiteral ignoreCase ''line '' s of None \<Rightarrow> None | Some r \<Rightarrow> digitsAt r)"

definition shapeBracket :: "bool \<Rightarrow> string \<Rightarrow> string option" where
  "shapeBracket ignoreCase s =
     (case stripLiteral ignoreCase ''[Line '' s of
        None \<Rightarrow> None
      | Some r \<Rightarrow>
          (case digitsAt r of
             None \<Rightarrow> None
           | Some ds \<Rightarrow>
               (case dropWhile isDigit r of
                  [] \<Rightarrow> None
                | c # cs \<Rightarrow> if c = CHR '']'' then Some ds else None)))"

definition shapeAt :: "bool \<Rightarrow> string \<Rightarrow> string option" where
  "shapeAt ignoreCase s =
     (case shapePath s of
        Some ds \<Rightarrow> Some ds
      | None \<Rightarrow>
          (case shapeLine ignoreCase s of
             Some ds \<Rightarrow> Some ds
           | None \<Rightarrow> shapeBracket ignoreCase s))"

fun firstShape :: "bool \<Rightarrow> string \<Rightarrow> string option" where
  "firstShape ignoreCase [] = shapeAt ignoreCase []"
| "firstShape ignoreCase (c # cs) =
     (case shapeAt ignoreCase (c # cs) of
        Some ds \<Rightarrow> Some ds
      | None \<Rightarrow> firstShape ignoreCase cs)"

definition extract_spec :: "bool \<Rightarrow> string \<Rightarrow> Diagnostic option" where
  "extract_spec ignoreCase rawErrorText =
     (if rawErrorText = [] then None
      else Some \<lparr>lineNumber =
                   (case firstShape ignoreCase rawErrorText of
                      Some ds \<Rightarrow> parseInt10 (Some ds)
                    | None \<Rightarrow> Fin 1),
                 message = trim rawErrorText\<rparr>)"

section \<open>Data model (types.ts)\<close>

text \<open>Field names that several of the source's types share (\<open>input\<close>, \<open>output\<close>,
  \<open>status\<close>, \<open>title\<close>, \<open>expectedOutput\<close>, ...) carry a prefix here, since the
  fields of records share one name space; \<open>id\<close> is \<open>problem_id\<close>.\<close>

datatype CodingProblemDifficulty = Easy | Medium | Hard

text \<open>\<open>'javascript' | 'python' | 'java' | 'c'\<close>\<close>

datatype Language = JavaScript | Python | Java | C

datatype SubmissionStatus =
  Accepted | WrongAnswer | RuntimeError | TimeLimitExceeded | CompilationError | Pending | Running

datatype AttemptStatus = Passed | Failed

record Example =
  ex_input :: string
  ex_output :: string
  ex_explanation :: "string option"

record TestCase =
  tc_input :: string
  tc_output :: string

record CodingProblem =
  problem_id :: string
  title :: string
  difficulty :: CodingProblemDifficulty
  description :: string
  constraints :: "string list"
  examples :: "Example list"
  testCases :: "TestCase list"
  starterCode :: "Language \<Rightarrow> string"
  solution :: "Language \<Rightarrow> string"

record SubmissionResult =
  status :: SubmissionStatus
  stdout :: "string option"
  expectedOutput :: "string option"
  stderr :: "string option"
  compile_output :: "string option"
  time :: "string option"
  memory :: "js_number option"

record TestCaseResult =
  r_input :: string
  r_expectedOutput :: string
  userOutput :: string
  r_status :: AttemptStatus
  r_error :: "string option"

record TestResult =
  testId :: string
  t_title :: string
  t_difficulty :: CodingProblemDifficulty
  t_language :: Language
  codeSubmitted :: string
  t_status :: AttemptStatus
  score :: js_number

text \<open>One case of a request to the judge: \<open>{stdin, expectedOutput?}\<close>.\<close>

record EvaluationCase =
  stdin :: string
  c_expectedOutput :: "string option"

datatype js_error = OracleError | TypeError

section \<open>The Judge Client (\<open>evaluateCodeWithAI\<close>)\<close>

text \<open>
  The oracle is the call of the generative model followed by \<open>JSON.parse\<close>. Either it
  yields the array \<open>parsed.results\<close>, or something throws on the way: the request is
  rejected, the response has no text, the text is not JSON, or \<open>results\<close> is no array.
\<close>

datatype oracle_reply = OracleFailure | OracleResults "SubmissionResult list"

definition syntheticResult :: SubmissionResult where
  "syntheticResult =
     \<lparr>status = CompilationError, stdout = Some [], expectedOutput = None, stderr = Some [],
      compile_output = Some ''Evaluation failed due to AI error.'', time = Some ''0'',
      memory = Some (Fin 0)\<rparr>"

text \<open>\<open>parsed.results.map((res, index) => ({...res, expectedOutput:
  testCases[index].expectedOutput}))\<close>: reading \<open>expectedOutput\<close> of a missing case
  throws a TypeError.\<close>

definition attachExpected ::
    "EvaluationCase list \<Rightarrow> SubmissionResult list \<Rightarrow> js_error + SubmissionResult list" where
  "attachExpected cases rs =
     (if length cases < length rs then Inl TypeError
      else Inr (map (\<lambda>index. (rs ! index)\<lparr>expectedOutput := c_expectedOutput (cases ! index)\<rparr>)
                  [0..<length rs]))"

text \<open>The version with the catch-all (services, the one documented ``For TestBuddy:
  Evaluates code''). Language, source and problem only go into the prompt.\<close>

definition evaluateCodeWithAI ::
    "Language \<Rightarrow> string \<Rightarrow> EvaluationCase list \<Rightarrow> CodingProblem \<Rightarrow> oracle_reply
      \<Rightarrow> SubmissionResult list" where
  "evaluateCodeWithAI lang sourceCode cases problem reply =
     (case reply of
        OracleFailure \<Rightarrow> map (\<lambda>_. syntheticResult) cases
      | OracleResults rs \<Rightarrow>
          (case attachExpected cases rs of
             Inl err \<Rightarrow> map (\<lambda>_. syntheticResult) cases
           | Inr results \<Rightarrow> results))"

text \<open>The other version in the services has no \<open>try\<close>: it returns \<open>parsed.results\<close> as
  it is and lets a failure of the oracle propagate.\<close>

definition evaluateCodeWithAI_uncaught ::
    "Language \<Rightarrow> string \<Rightarrow> EvaluationCase list \<Rightarrow> CodingProblem \<Rightarrow> oracle_reply
      \<Rightarrow> js_error + SubmissionResult list" where
  "evaluateCodeWithAI_uncaught lang sourceCode cases problem reply =
     (case reply of OracleFailure \<Rightarrow> Inl OracleError | OracleResults rs \<Rightarrow> Inr rs)"

section \<open>The Attempt Recorder (\<open>handleCodingAttempt\<close>, \<open>saveCodingResult\<close>)\<close>

text \<open>The collection \<open>users/{uid}/codingResults\<close>, as the documents added so far with
  their owner; \<open>addSucceeds\<close> says whether the store accepts the document.\<close>

type_synonym codingResults = "(string \<times> TestResult) list"

definition saveCodingResult ::
    "string \<Rightarrow> TestResult \<Rightarrow> bool \<Rightarrow> codingResults \<Rightarrow> js_error + codingResults" where
  "saveCodingResult uid result addSucceeds db =
     (if addSucceeds then Inr (db @ [(uid, result)]) else Inl OracleError)"

definition handleCodingAttempt ::
    "string option \<Rightarrow> TestResult \<Rightarrow> bool \<Rightarrow> codingResults \<Rightarrow> codingResults" where
  "handleCodingAttempt usr result addSucceeds db =
     (case usr of
        None \<Rightarrow> db
      | Some uid \<Rightarrow>
          (case saveCodingResult uid result addSucceeds db of
             Inl err \<Rightarrow> db
           | Inr db' \<Rightarrow> db'))"

section \<open>The Run/Submit Orchestrator (TestBuddy.tsx)\<close>

record SubmissionDisplayResult =
  result :: SubmissionResult
  passed :: bool
  d_input :: string
  expected :: string

datatype ActiveResultTab = RunTab | SubmitTab

datatype TestBuddyView = initial | mcq | coding_difficulty | coding_workspace | mcq_results

record FailedTest =
  f_input :: string
  f_expected :: string
  actual :: string

text \<open>The state of the component that the coding workflow reads or writes.\<close>

record TestBuddyState =
  user :: "string option"
  activeCodingProblem :: "CodingProblem option"
  language :: Language
  code :: string
  isExecuting :: bool
  activeResultTab :: ActiveResultTab
  runResults :: "TestCaseResult list option"
  submissionResults :: "SubmissionDisplayResult list option"
  overallSubmissionStatus :: "SubmissionStatus option"
  hint :: "string option"
  failureExplanation :: "string option"
  isExplanationLoading :: bool
  codeError :: "Diagnostic option"
  isCodingTimerRunning :: bool
  isLoading :: bool
  codingDifficulty :: "CodingProblemDifficulty option"
  error :: "string option"
  view :: TestBuddyView
  showSolution :: bool

text \<open>
  \<open>handleRunCode\<close> and \<open>handleSubmitCode\<close> are created anew by every render of the
  component, and each of them closes over the constants of its render: \<open>user\<close>,
  \<open>activeCodingProblem\<close>, \<open>language\<close>, \<open>code\<close> and \<open>isExecuting\<close> are what the
  state was when the component was rendered, whereas the setters write the current
  state. A handler that awaits the judge runs in two parts. The first part ends by
  starting the oracle call; the call is kept with what the handler's closure holds (the
  problem, the language, the code). The second part runs when the call settles.
\<close>

datatype EvaluationKind = RunEvaluation | SubmitEvaluation

record Evaluation =
  kind :: EvaluationKind
  e_problem :: CodingProblem
  e_language :: Language
  e_code :: string
  e_cases :: "EvaluationCase list"

text \<open>The component with what it has set in motion: its current state \<open>ui\<close>, the
  state \<open>rendered\<close> as of the last render (the one that the handlers now attached to the
  buttons and to the timer close over), the calls of \<open>onCodingAttempt\<close> (the Attempt
  Recorder), the oracle calls in flight, the explanation requests sent and the number of
  problem requests not yet answered.\<close>

record Session =
  ui :: TestBuddyState
  rendered :: TestBuddyState
  attempts :: "TestResult list"
  evaluations :: "Evaluation list"
  explanations :: "FailedTest list"
  problemRequests :: nat

text \<open>\<open>xs.findIndex(p)\<close>: \<open>-1\<close> when no element satisfies \<open>p\<close>.\<close>

fun findIndex :: "('a \<Rightarrow> bool) \<Rightarrow> 'a list \<Rightarrow> int" where
  "findIndex p [] = - 1"
| "findIndex p (x # xs) =
     (if p x then 0 else (let i = findIndex p xs in if i = - 1 then - 1 else i + 1))"

text \<open>The first part of \<open>handleRunCode\<close>, for the handler of the render that saw the
  state \<open>r\<close>: the guard and what goes to the judge are read from \<open>r\<close>.\<close>

definition handleRunCode :: "TestBuddyState \<Rightarrow> Session \<Rightarrow> Session" where
  "handleRunCode r w =
     (case activeCodingProblem r of
        None \<Rightarrow> w
      | Some problem \<Rightarrow>
          if isExecuting r then w
          else w\<lparr>ui := (ui w)\<lparr>isExecuting := True, activeResultTab := RunTab,
                      submissionResults := None, hint := None, failureExplanation := None,
                      codeError := None\<rparr>,
                 evaluations := evaluations w @
                   [\<lparr>kind = RunEvaluation, e_problem = problem, e_language = language r,
                     e_code = code r,
                     e_cases = map (\<lambda>example. \<lparr>stdin = extractInputValue (ex_input example),
                                      c_expectedOutput = Some (ex_output example)\<rparr>)
                                 (examples problem)\<rparr>]\<rparr>)"

definition runResult :: "CodingProblem \<Rightarrow> SubmissionResult list \<Rightarrow> nat \<Rightarrow> TestCaseResult" where
  "runResult problem results index =
     (let res = results ! index
      in \<lparr>r_input = ex_input (examples problem ! index),
          r_expectedOutput = ex_output (examples problem ! index),
          userOutput =
            js_or_str (js_or (compile_output res) (js_or (stderr res) (stdout res))) ''No output'',
          r_status = (if status res = Accepted then Passed else Failed),
          r_error = js_or (stderr res) (compile_output res)\<rparr>)"

text \<open>The second part of \<open>handleRunCode\<close>. Reading \<open>examples[index].input\<close> of a
  missing example throws before any state is set.\<close>

definition runSettled :: "CodingProblem \<Rightarrow> SubmissionResult list \<Rightarrow> Session \<Rightarrow> js_error + Session" where
  "runSettled problem results w =
     (if length (examples problem) < length results then Inl TypeError
      else
        (let shown = map (runResult problem results) [0..<length results];
             firstError = find (\<lambda>res. status res = CompilationError \<or> status res = RuntimeError)
                            results;
             u1 = (ui w)\<lparr>runResults := Some shown\<rparr>;
             u2 = (case firstError of
                     None \<Rightarrow> u1
                   | Some e \<Rightarrow>
                       u1\<lparr>codeError :=
                            parseError (js_or_str (js_or (compile_output e) (stderr e)) [])\<rparr>)
         in Inr (w\<lparr>ui := u2\<lparr>isExecuting := False\<rparr>\<rparr>)))"

text \<open>The first part of \<open>handleSubmitCode\<close>, for the handler of the render that saw the
  state \<open>r\<close>.\<close>

definition handleSubmitCode :: "TestBuddyState \<Rightarrow> Session \<Rightarrow> Session" where
  "handleSubmitCode r w =
     (case user r of
        None \<Rightarrow> w
      | Some uid \<Rightarrow>
          (case activeCodingProblem r of
             None \<Rightarrow> w
           | Some problem \<Rightarrow>
               if isExecuting r then w
               else w\<lparr>ui := (ui w)\<lparr>isExecuting := True, activeResultTab := SubmitTab,
                           runResults := None, hint := None, failureExplanation := None,
                           codeError := None, submissionResults := None,
                           overallSubmissionStatus := Some Running\<rparr>,
                      evaluations := evaluations w @
                        [\<lparr>kind = SubmitEvaluation, e_problem = problem,
                          e_language = language r, e_code = code r,
                          e_cases = map (\<lambda>tc. \<lparr>stdin = extractInputValue (tc_input tc),
                                           c_expectedOutput = Some (tc_output tc)\<rparr>)
                                      (testCases problem)\<rparr>]\<rparr>))"

definition displayResult :: "CodingProblem \<Rightarrow> SubmissionResult list \<Rightarrow> nat \<Rightarrow> SubmissionDisplayResult" where
  "displayResult problem results index =
     \<lparr>result = results ! index,
      passed = (status (results ! index) = Accepted),
      d_input = tc_input (testCases problem ! index),
      expected = tc_output (testCases problem ! index)\<rparr>"

text \<open>\<open>parseFloat(((passedCount / length) * 100).toFixed(2))\<close>\<close>

definition submissionScore :: "SubmissionDisplayResult list \<Rightarrow> js_number" where
  "submissionScore shown =
     (let passedCount = length (filter passed shown);
          score = js_mul (js_div (Fin (of_nat passedCount)) (Fin (of_nat (length shown)))) (Fin 100)
      in parseFloat (toFixed2 score))"

text \<open>The second part of \<open>handleSubmitCode\<close>. Reading \<open>testCases[index].input\<close> of a
  missing test case throws before any state is set.\<close>

definition submitSettled ::
    "CodingProblem \<Rightarrow> Language \<Rightarrow> string \<Rightarrow> SubmissionResult list \<Rightarrow> Session
      \<Rightarrow> js_error + Session" where
  "submitSettled problem lang src results w =
     (if length (testCases problem) < length results then Inl TypeError
      else
        (let submissionDisplayResults = map (displayResult problem results) [0..<length results];
             firstFailureIndex = findIndex (\<lambda>r. status r \<noteq> Accepted) results;
             passedAll = (firstFailureIndex = - 1);
             resultData =
               \<lparr>testId = problem_id problem, t_title = title problem,
                t_difficulty = difficulty problem, t_language = lang, codeSubmitted = src,
                t_status = (if passedAll then Passed else Failed),
                score = submissionScore submissionDisplayResults\<rparr>;
             u1 = (ui w)\<lparr>submissionResults := Some submissionDisplayResults\<rparr>;
             w1 = w\<lparr>attempts := attempts w @ [resultData]\<rparr>
         in
           if passedAll then
             Inr (w1\<lparr>ui := u1\<lparr>overallSubmissionStatus := Some Accepted,
                             isCodingTimerRunning := False, isExecuting := False\<rparr>\<rparr>)
           else
             (let failedResult = results ! nat firstFailureIndex;
                  failedTestCase = testCases problem ! nat firstFailureIndex;
                  u2 = u1\<lparr>overallSubmissionStatus := Some (status failedResult)\<rparr>;
                  u3 = (case parseError
                               (js_or_str (js_or (compile_output failedResult) (stderr failedResult)) [])
                        of None \<Rightarrow> u2 | Some parsed \<Rightarrow> u2\<lparr>codeError := Some parsed\<rparr>)
              in
                if status failedResult = WrongAnswer then
                  Inr (w1\<lparr>ui := u3\<lparr>isExplanationLoading := True, isExecuting := False\<rparr>,
                          explanations := explanations w @
                            [\<lparr>f_input = tc_input failedTestCase,
                              f_expected = tc_output failedTestCase,
                              actual = js_or_str (stdout failedResult) []\<rparr>]\<rparr>)
                else Inr (w1\<lparr>ui := u3\<lparr>isExecuting := False\<rparr>\<rparr>))))"

text \<open>\<open>handleFetchCodingProblem\<close>, up to its await, and what follows when the problem
  arrives (\<open>None\<close>: the generation failed). The handler reads no state: it only
  calls setters. A new problem makes the effect on \<open>[activeCodingProblem, language]\<close>
  run, which loads the starter code and clears the results; the effect is applied here
  together with the arrival.\<close>

definition handleFetchCodingProblem :: "CodingProblemDifficulty \<Rightarrow> Session \<Rightarrow> Session" where
  "handleFetchCodingProblem d w =
     w\<lparr>ui := (ui w)\<lparr>isLoading := True, codingDifficulty := Some d, error := None,
                 isExecuting := False\<rparr>,
       problemRequests := Suc (problemRequests w)\<rparr>"

definition problemSettled :: "CodingProblem option \<Rightarrow> Session \<Rightarrow> Session" where
  "problemSettled fetched w =
     (if problemRequests w = 0 then w
      else
        (case fetched of
           None \<Rightarrow>
             w\<lparr>ui := (ui w)\<lparr>error := Some ''Failed to fetch problems.'', isLoading := False\<rparr>,
               problemRequests := problemRequests w - 1\<rparr>
         | Some problem \<Rightarrow>
             w\<lparr>ui := (ui w)\<lparr>activeCodingProblem := Some problem, view := coding_workspace,
                         isCodingTimerRunning := True, isLoading := False,
                         code := starterCode problem (language (ui w)), runResults := None,
                         submissionResults := None, overallSubmissionStatus := None,
                         hint := None, failureExplanation := None, codeError := None,
                         showSolution := False\<rparr>,
               problemRequests := problemRequests w - 1\<rparr>))"

text \<open>
  What can happen to a session, one event at a time (the runtime is single-threaded):
  the component is rendered again, so that the handlers attached from then on see the
  current state; the Run or the Submit handler of the last render is invoked (by a
  click, for Submit also by the timer, or by a caller that holds the handler); the
  oracle call at a position of the list of calls in flight settles; a new problem is
  requested, and it arrives. A settled call is answered through the Judge Client with
  the catch-all; a continuation that throws leaves the state as it was.
\<close>

datatype event =
    Rendered
  | RunClicked
  | SubmitClicked
  | EvaluationSettled nat oracle_reply
  | ProblemRequested CodingProblemDifficulty
  | ProblemArrived "CodingProblem option"

definition settle :: "Evaluation \<Rightarrow> oracle_reply \<Rightarrow> Session \<Rightarrow> Session" where
  "settle ev reply w =
     (let results = evaluateCodeWithAI (e_language ev) (e_code ev) (e_cases ev) (e_problem ev) reply;
          outcome = (case kind ev of
                       RunEvaluation \<Rightarrow> runSettled (e_problem ev) results w
                     | SubmitEvaluation \<Rightarrow>
                         submitSettled (e_problem ev) (e_language ev) (e_code ev) results w)
      in case outcome of Inl err \<Rightarrow> w | Inr w' \<Rightarrow> w')"

fun step :: "event \<Rightarrow> Session \<Rightarrow> Session" where
  "step Rendered w = w\<lparr>rendered := ui w\<rparr>"
| "step RunClicked w = handleRunCode (rendered w) w"
| "step SubmitClicked w = handleSubmitCode (rendered w) w"
| "step (EvaluationSettled i reply) w =
     (if i < length (evaluations w)
      then settle (evaluations w ! i) reply
             (w\<lparr>evaluations := take i (evaluations w) @ drop (Suc i) (evaluations w)\<rparr>)
      else w)"
| "step (ProblemRequested d) w = handleFetchCodingProblem d w"
| "step (ProblemArrived fetched) w = problemSettled fetched w"

definition run :: "event list \<Rightarrow> Session \<Rightarrow> Session" where
  "run es w = foldl (\<lambda>w e. step e w) w es"

text \<open>One Submit through the handler of the last render, from the click to the verdict,
  for a judge that returns \<open>results\<close>.\<close>

definition submit :: "SubmissionResult list \<Rightarrow> Session \<Rightarrow> js_error + Session" where
  "submit results w =
     (case user (rendered w) of
        None \<Rightarrow> Inr w
      | Some uid \<Rightarrow>
          (case activeCodingProblem (rendered w) of
             None \<Rightarrow> Inr w
           | Some problem \<Rightarrow>
               if isExecuting (rendered w) then Inr w
               else submitSettled problem (language (rendered w)) (code (rendered w)) results
                      ((handleSubmitCode (rendered w) w)\<lparr>evaluations := evaluations w\<rparr>)))"

section \<open>Auxiliary notions for the proofs\<close>

text \<open>Lower-case and upper-case ASCII letters.\<close>

definition isLower :: "char \<Rightarrow> bool" where
  "isLower c \<longleftrightarrow> (97::nat) \<le> of_char c \<and> of_char c \<le> (122::nat)"

definition isUpper :: "char \<Rightarrow> bool" where
  "isUpper c \<longleftrightarrow> (65::nat) \<le> of_char c \<and> of_char c \<le> (90::nat)"

text \<open>The captures of the first way to match, if there is one.\<close>

definition firstCaps :: "(string \<times> captures) list \<Rightarrow> captures option" where
  "firstCaps ys = (case ys of [] \<Rightarrow> None | y # _ \<Rightarrow> Some (snd y))"

text \<open>\<open>match[1] || match[2] || match[3]\<close>\<close>

definition matchedDigits :: "captures \<Rightarrow> string option" where
  "matchedDigits g = js_or (g 1) (js_or (g 2) (g 3))"

text \<open>A problem, an idle session on it (rendered as it is) and results with a given
  status, for the concrete instances below.\<close>

definition someProblem :: "TestCase list \<Rightarrow> CodingProblem" where
  "someProblem hidden =
     \<lparr>problem_id = ''p1'', title = ''Squares'', difficulty = Easy, description = [],
      constraints = [], examples = [], testCases = hidden,
      starterCode = (\<lambda>_. []), solution = (\<lambda>_. [])\<rparr>"

definition idleState :: "CodingProblem \<Rightarrow> TestBuddyState" where
  "idleState problem =
     \<lparr>user = Some ''u1'', activeCodingProblem = Some problem, language = JavaScript,
      code = ''return n * n'', isExecuting = False, activeResultTab = RunTab,
      runResults = None, submissionResults = None, overallSubmissionStatus = None,
      hint = None, failureExplanation = None, isExplanationLoading = False,
      codeError = None, isCodingTimerRunning = True, isLoading = False,
      codingDifficulty = Some Easy, error = None, view = coding_workspace,
      showSolution = False\<rparr>"

definition idleSession :: "CodingProblem \<Rightarrow> Session" where
  "idleSession problem =
     \<lparr>ui = idleState problem, rendered = idleState problem,
      attempts = [], evaluations = [], explanations = [], problemRequests = 0\<rparr>"

definition verdict :: "SubmissionStatus \<Rightarrow> SubmissionResult" where
  "verdict s =
     \<lparr>status = s, stdout = Some [], expectedOutput = None, stderr = Some [],
      compile_output = Some [], time = Some ''0'', memory = Some (Fin 0)\<rparr>"

definition hiddenCases :: "nat \<Rightarrow> TestCase list" where
  "hiddenCases n = replicate n \<lparr>tc_input = ''n = 2'', tc_output = ''4''\<rparr>"

text \<open>\<open>results.findIndex(r => r.status !== 'Accepted')\<close>, and with it the Attempt
  that a Submit hands to the recorder and the overall status it shows.\<close>

definition firstFailure :: "SubmissionResult list \<Rightarrow> int" where
  "firstFailure results = findIndex (\<lambda>r. status r \<noteq> Accepted) results"

text \<open>At most one evaluation is in flight, and \<open>isExecuting\<close> is set while one is.\<close>

definition singleFlight :: "Session \<Rightarrow> bool" where
  "singleFlight w \<longleftrightarrow>
     length (evaluations w) \<le> 1 \<and> (evaluations w = [] \<or> isExecuting (ui w))"



text \<open>The cases that a Submit sends to the judge (\<open>testCasesToSubmit\<close>).\<close>

definition submitCases :: "CodingProblem \<Rightarrow> EvaluationCase list" where
  "submitCases problem =
     map (\<lambda>tc. \<lparr>stdin = extractInputValue (tc_input tc), c_expectedOutput = Some (tc_output tc)\<rparr>)
       (testCases problem)"

definition attemptOf :: "CodingProblem \<Rightarrow> Language \<Rightarrow> string \<Rightarrow> SubmissionResult list \<Rightarrow> TestResult" where
  "attemptOf problem lang src results =
     \<lparr>testId = problem_id problem, t_title = title problem,
      t_difficulty = difficulty problem, t_language = lang, codeSubmitted = src,
      t_status = (if firstFailure results = - 1 then Passed else Failed),
      score = submissionScore (map (displayResult problem results) [0..<length results])\<rparr>"

definition overallOf :: "SubmissionResult list \<Rightarrow> SubmissionStatus" where
  "overallOf results =
     (if firstFailure results = - 1 then Accepted
      else status (results ! nat (firstFailure results)))"

section \<open>Facts about the string operations\<close>

lemma split_nl_nonempty: "split_nl s \<noteq> []"
  by (induction s) (auto split: list.splits)

lemma indexOf_absent: "c \<notin> set s \<Longrightarrow> indexOf c s = - 1"
  by (induction s) (auto simp: Let_def)

lemma indexOf_present:
  "c \<in> set s \<Longrightarrow> indexOf c s = int (length (takeWhile (\<lambda>x. x \<noteq> c) s))"
proof (induction s)
  case Nil
  then show ?case by simp
next
  case (Cons x xs)
  show ?case
  proof (cases "x = c")
    case True
    then show ?thesis by simp
  next
    case False
    with Cons.prems have "c \<in> set xs" by simp
    with Cons.IH have "indexOf c xs = int (length (takeWhile (\<lambda>x. x \<noteq> c) xs))" .
    with False show ?thesis by (simp add: Let_def)
  qed
qed

lemma drop_past_first:
  "drop (Suc (length (takeWhile P s))) s = tl (dropWhile P s)"
  by (induction s) auto

lemma stripLine_eq_spec: "stripLine line = stripLine_spec line"
proof (cases "CHR ''='' \<in> set line")
  case True
  then have "indexOf CHR ''='' line = int (length (takeWhile (\<lambda>x. x \<noteq> CHR ''='') line))"
    by (rule indexOf_present)
  moreover have "nat (int (length (takeWhile (\<lambda>x. x \<noteq> CHR ''='') line)) + 1)
      = Suc (length (takeWhile (\<lambda>x. x \<noteq> CHR ''='') line))"
    by simp
  ultimately show ?thesis
    using True
    by (simp add: stripLine_def stripLine_spec_def afterFirstEq_def substring_def
        drop_past_first Let_def)
next
  case False
  then show ?thesis
    by (simp add: stripLine_def stripLine_spec_def indexOf_absent Let_def)
qed

lemma split_nl_append:
  "split_nl (a @ NL # b) = split_nl a @ split_nl b"
proof (induction a)
  case Nil
  then show ?case by simp
next
  case (Cons c cs)
  show ?case
  proof (cases "c = NL")
    case True
    with Cons show ?thesis by simp
  next
    case False
    obtain l ls where "split_nl cs = l # ls"
      using split_nl_nonempty [of cs] by (cases "split_nl cs") auto
    with Cons False show ?thesis by simp
  qed
qed

lemma join_nl_append:
  "xs \<noteq> [] \<Longrightarrow> ys \<noteq> [] \<Longrightarrow> join_nl (xs @ ys) = join_nl xs @ NL # join_nl ys"
proof (induction xs rule: join_nl.induct)
  case 1
  then show ?case by simp
next
  case (2 l)
  then show ?case by (cases ys) auto
next
  case (3 l v va)
  then show ?case by simp
qed

lemma split_nl_no_NL: "l \<in> set (split_nl s) \<Longrightarrow> NL \<notin> set l"
proof (induction s arbitrary: l)
  case Nil
  then show ?case by simp
next
  case (Cons c cs)
  obtain k ks where ks: "split_nl cs = k # ks"
    using split_nl_nonempty [of cs] by (cases "split_nl cs") auto
  show ?case
  proof (cases "c = NL")
    case True
    with Cons show ?thesis by auto
  next
    case False
    with Cons.prems ks have "l = c # k \<or> l \<in> set ks" by simp
    then show ?thesis
    proof
      assume "l = c # k"
      moreover have "NL \<notin> set k" using Cons.IH [of k] ks by simp
      ultimately show ?thesis using False by auto
    next
      assume "l \<in> set ks"
      then show ?thesis using Cons.IH [of l] ks by simp
    qed
  qed
qed

lemma set_trim: "set (trim s) \<subseteq> set s"
proof -
  have "set (trim s) \<subseteq> set (rev (dropWhile isWhiteSpace s))"
    unfolding trim_def using set_dropWhileD by fastforce
  also have "\<dots> \<subseteq> set s"
    using set_dropWhileD by fastforce
  finally show ?thesis .
qed

lemma stripLine_no_NL: "NL \<notin> set line \<Longrightarrow> NL \<notin> set (stripLine line)"
proof -
  assume a: "NL \<notin> set line"
  have "set (stripLine line) \<subseteq> set line"
    using set_trim [of line] set_trim [of "substring line (indexOf CHR ''='' line + 1)"]
      set_drop_subset [of "nat (indexOf CHR ''='' line + 1)" line]
    by (auto simp: stripLine_def substring_def Let_def)
  with a show ?thesis by auto
qed

lemma split_nl_single: "NL \<notin> set l \<Longrightarrow> split_nl l = [l]"
  by (induction l) auto

lemma split_join_nl:
  "ls \<noteq> [] \<Longrightarrow> \<forall>l \<in> set ls. NL \<notin> set l \<Longrightarrow> split_nl (join_nl ls) = ls"
proof (induction ls rule: join_nl.induct)
  case 1
  then show ?case by simp
next
  case (2 l)
  then show ?case by (simp add: split_nl_single)
next
  case (3 l v va)
  then have "split_nl (join_nl (v # va)) = v # va" by simp
  moreover have "split_nl l = [l]" using "3.prems" by (simp add: split_nl_single)
  ultimately show ?case by (simp add: split_nl_append)
qed

section \<open>Facts about characters and patterns\<close>

lemma toUpperCase_id: "\<not> isLower c \<Longrightarrow> toUpperCase c = c"
  by (auto simp: toUpperCase_def isLower_def)

lemma toLowerCase_id: "\<not> isUpper c \<Longrightarrow> toLowerCase c = c"
  by (auto simp: toLowerCase_def isUpper_def)

lemma toUpperCase_code: "isLower c \<Longrightarrow> (of_char (toUpperCase c) :: nat) = of_char c - 32"
proof -
  assume l: "isLower c"
  have "(of_char c :: nat) - 32 < 256"
    using nat_of_char_less_256 [of c] by arith
  then have "((of_char c :: nat) - 32) mod 256 = of_char c - 32"
    by (rule mod_less)
  with l show ?thesis by (simp add: toUpperCase_def isLower_def)
qed

lemma toLowerCase_code: "isUpper c \<Longrightarrow> (of_char (toLowerCase c) :: nat) = of_char c + 32"
  by (simp add: toLowerCase_def isUpper_def)

lemma isUpper_toUpperCase: "isLower c \<Longrightarrow> isUpper (toUpperCase c)"
  using toUpperCase_code [of c] by (simp add: isUpper_def isLower_def) arith

lemma isLower_toLowerCase: "isUpper c \<Longrightarrow> isLower (toLowerCase c)"
  using toLowerCase_code [of c] by (simp add: isUpper_def isLower_def)

lemma lower_not_upper: "isLower c \<Longrightarrow> \<not> isUpper c"
  by (simp add: isUpper_def isLower_def)

lemma digit_not_letter: "isDigit c \<Longrightarrow> \<not> isLower c \<and> \<not> isUpper c"
  by (simp add: isUpper_def isLower_def isDigit_def)

lemma inRanges_digit: "inRanges digitClass c = isDigit c"
  by (simp add: inRanges_def digitClass_def isDigit_def)

lemma classMatches_digit: "classMatches True digitClass c = isDigit c"
proof (cases "isLower c")
  case True
  then have "\<not> isDigit (toUpperCase c)" "toLowerCase c = c"
    using isUpper_toUpperCase digit_not_letter lower_not_upper toLowerCase_id by blast+
  then show ?thesis by (simp add: classMatches_def inRanges_digit)
next
  case False
  note nl = this
  show ?thesis
  proof (cases "isUpper c")
    case True
    then have "\<not> isDigit (toLowerCase c)" "toUpperCase c = c"
      using isLower_toLowerCase digit_not_letter nl toUpperCase_id by blast+
    then show ?thesis by (simp add: classMatches_def inRanges_digit)
  next
    case False
    with nl show ?thesis
      by (simp add: classMatches_def inRanges_digit toUpperCase_id toLowerCase_id)
  qed
qed

lemma char_eq_by_code: "(of_char d :: nat) = n \<Longrightarrow> c = d \<longleftrightarrow> (of_char c :: nat) = n"
  by (metis of_char_eq_iff)

lemma isPathChar_codes:
  "isPathChar c \<longleftrightarrow> isLower c \<or> isUpper c \<or> isDigit c
     \<or> (of_char c :: nat) = 47 \<or> (of_char c :: nat) = 46
     \<or> (of_char c :: nat) = 95 \<or> (of_char c :: nat) = 45"
proof -
  have "c = CHR ''/'' \<longleftrightarrow> (of_char c :: nat) = 47" by (rule char_eq_by_code) simp
  moreover have "c = CHR ''.'' \<longleftrightarrow> (of_char c :: nat) = 46" by (rule char_eq_by_code) simp
  moreover have "c = CHR ''_'' \<longleftrightarrow> (of_char c :: nat) = 95" by (rule char_eq_by_code) simp
  moreover have "c = CHR ''-'' \<longleftrightarrow> (of_char c :: nat) = 45" by (rule char_eq_by_code) simp
  ultimately show ?thesis
    unfolding isPathChar_def isLower_def isUpper_def by blast
qed

lemma le_both: "(k::nat) \<le> n \<and> n \<le> k \<longleftrightarrow> n = k"
  by auto

lemma inRanges_path: "inRanges pathClass c = isPathChar c"
  unfolding isPathChar_codes
  by (simp add: inRanges_def pathClass_def isLower_def isUpper_def isDigit_def le_both)

lemma classMatches_path: "classMatches True pathClass c = isPathChar c"
proof (cases "isLower c")
  case True
  then have "toLowerCase c = c" "isPathChar c"
    using lower_not_upper toLowerCase_id isPathChar_codes by blast+
  then show ?thesis by (simp add: classMatches_def inRanges_path)
next
  case False
  note nl = this
  show ?thesis
  proof (cases "isUpper c")
    case True
    then have "toUpperCase c = c" "isPathChar c"
      using nl toUpperCase_id isPathChar_codes by blast+
    then show ?thesis by (simp add: classMatches_def inRanges_path)
  next
    case False
    with nl show ?thesis
      by (simp add: classMatches_def inRanges_path toUpperCase_id toLowerCase_id)
  qed
qed

lemma charMatches_nonletter:
  assumes "\<not> isLower a" "\<not> isUpper a"
  shows "charMatches True a c \<longleftrightarrow> c = a"
proof (cases "isLower c")
  case True
  then have "isUpper (toUpperCase c)" by (rule isUpper_toUpperCase)
  with assms True have "toUpperCase c \<noteq> a" "c \<noteq> a" by auto
  with assms show ?thesis by (simp add: charMatches_def toUpperCase_id)
next
  case False
  with assms show ?thesis by (auto simp: charMatches_def toUpperCase_id)
qed

lemma charMatches_colon: "charMatches True CHR '':'' c \<longleftrightarrow> c = CHR '':''"
  by (rule charMatches_nonletter) (simp_all add: isLower_def isUpper_def)

lemma charMatches_bracket: "charMatches True CHR '']'' c \<longleftrightarrow> c = CHR '']''"
  by (rule charMatches_nonletter) (simp_all add: isLower_def isUpper_def)

lemma colon_not_path: "\<not> isPathChar CHR '':''"
  by (simp add: isPathChar_def isDigit_def)

lemma bracket_not_digit: "\<not> isDigit CHR '']''"
  by (simp add: isDigit_def)

subsection \<open>Greedy repetition\<close>

lemma plusRests_Nil_iff: "plusRests P s = [] \<longleftrightarrow> takeWhile P s = []"
  by (cases s) auto

lemma concat_plusRests:
  assumes "\<And>c cs. P c \<Longrightarrow> F (c # cs) = []"
  shows "concat (map F (plusRests P s)) = (if takeWhile P s = [] then [] else F (dropWhile P s))"
proof (induction s)
  case Nil
  then show ?case by simp
next
  case (Cons c cs)
  show ?case
  proof (cases "P c")
    case False
    then show ?thesis by simp
  next
    case True
    show ?thesis
    proof (cases cs)
      case Nil
      with True show ?thesis by simp
    next
      case (Cons d ds)
      show ?thesis
      proof (cases "P d")
        case True
        with assms have "F cs = []" using Cons by simp
        with Cons.IH \<open>P c\<close> True Cons show ?thesis by simp
      next
        case False
        with Cons.IH \<open>P c\<close> Cons show ?thesis by simp
      qed
    qed
  qed
qed

lemma hd_plusRests: "takeWhile P s \<noteq> [] \<Longrightarrow> \<exists>rest. plusRests P s = dropWhile P s # rest"
proof (induction s)
  case Nil
  then show ?case by simp
next
  case (Cons c cs)
  then have pc: "P c" by (auto split: if_splits)
  show ?case
  proof (cases "takeWhile P cs = []")
    case True
    then have "plusRests P cs = []" by (simp add: plusRests_Nil_iff)
    moreover have "dropWhile P cs = cs"
      using True by (cases cs) (auto split: if_splits)
    ultimately show ?thesis using pc by simp
  next
    case False
    with Cons.IH obtain rest where "plusRests P cs = dropWhile P cs # rest" by blast
    with pc show ?thesis by simp
  qed
qed

lemma take_takeWhile: "take (length s - length (dropWhile P s)) s = takeWhile P s"
proof -
  have "length (takeWhile P s) + length (dropWhile P s) = length s"
    by (metis length_append takeWhile_dropWhile_id)
  then have "length s - length (dropWhile P s) = length (takeWhile P s)" by simp
  then show ?thesis by (simp add: takeWhile_eq_take [symmetric])
qed

subsection \<open>The three alternatives\<close>

lemma firstCaps_append:
  "firstCaps (xs @ ys) = (case firstCaps xs of Some g \<Rightarrow> Some g | None \<Rightarrow> firstCaps ys)"
  by (cases xs) (simp_all add: firstCaps_def)

lemma matches_digits:
  "firstCaps (matches True (Group n (PlusCls digitClass)) (t, g))
     = map_option (\<lambda>ds. g(n \<mapsto> ds)) (digitsAt t)"
proof -
  have P: "classMatches True digitClass = isDigit"
    by (rule ext) (rule classMatches_digit)
  show ?thesis
  proof (cases "takeWhile isDigit t = []")
    case True
    then have "plusRests isDigit t = []" by (simp add: plusRests_Nil_iff)
    with True show ?thesis by (simp add: P firstCaps_def digitsAt_def)
  next
    case False
    then obtain rest where "plusRests isDigit t = dropWhile isDigit t # rest"
      using hd_plusRests by blast
    with False show ?thesis
      by (simp add: P firstCaps_def digitsAt_def take_takeWhile)
  qed
qed

lemma matches_colon:
  "matches True (Str '':'') (s, g) =
     (case s of [] \<Rightarrow> [] | c # cs \<Rightarrow> if c = CHR '':'' then [(cs, g)] else [])"
  by (cases s) (simp_all add: charMatches_colon)

lemma matches_bracket:
  "matches True (Str '']'') (s, g) =
     (case s of [] \<Rightarrow> [] | c # cs \<Rightarrow> if c = CHR '']'' then [(cs, g)] else [])"
  by (cases s) (simp_all add: charMatches_bracket)

lemma matches_path:
  "firstCaps (matches True
      (Seq (PlusCls pathClass) (Seq (Str '':'') (Group 1 (PlusCls digitClass)))) (s, g))
     = map_option (\<lambda>ds. g(1 \<mapsto> ds)) (shapePath s)"
proof -
  let ?Q = "Seq (Str '':'') (Group 1 (PlusCls digitClass))"
  let ?F = "\<lambda>r. matches True ?Q (r, g)"
  have P: "classMatches True pathClass = isPathChar"
    by (rule ext) (rule classMatches_path)
  have F0: "\<And>c cs. isPathChar c \<Longrightarrow> ?F (c # cs) = []"
    using colon_not_path by (auto simp: charMatches_colon)
  have "matches True (Seq (PlusCls pathClass) ?Q) (s, g)
      = concat (map ?F (plusRests isPathChar s))"
    by (simp add: P comp_def)
  also have "\<dots> = (if takeWhile isPathChar s = [] then [] else ?F (dropWhile isPathChar s))"
    using F0 by (rule concat_plusRests)
  finally have m: "matches True (Seq (PlusCls pathClass) ?Q) (s, g)
      = (if takeWhile isPathChar s = [] then [] else ?F (dropWhile isPathChar s))" .
  show ?thesis
  proof (cases "shapePath s")
    case None
    have "matches True (Seq (PlusCls pathClass) ?Q) (s, g) = []"
    proof (cases "takeWhile isPathChar s = []")
      case True
      with m show ?thesis by (simp del: matches.simps)
    next
      case False
      have "?F (dropWhile isPathChar s) = []"
      proof (cases "dropWhile isPathChar s")
        case Nil
        show ?thesis unfolding Nil by (simp add: matches_colon del: matches.simps(1) matches.simps(5))
      next
        case (Cons c cs)
        show ?thesis
        proof (cases "c = CHR '':''")
          case True
          with None False Cons have "digitsAt cs = None"
            by (simp add: shapePath_def)
          then have "firstCaps (matches True (Group 1 (PlusCls digitClass)) (cs, g)) = None"
            by (simp only: matches_digits option.map)
          then have "matches True (Group 1 (PlusCls digitClass)) (cs, g) = []"
            by (simp add: firstCaps_def del: matches.simps split: list.splits)
          with True show ?thesis unfolding Cons by (simp add: matches_colon del: matches.simps(1) matches.simps(5))
        next
          case False
          then show ?thesis unfolding Cons by (simp add: matches_colon del: matches.simps(1) matches.simps(5))
        qed
      qed
      with m False show ?thesis by (simp del: matches.simps)
    qed
    with None show ?thesis by (simp only: firstCaps_def list.case option.map)
  next
    case (Some ds)
    have ne: "takeWhile isPathChar s \<noteq> []"
      using Some by (auto simp: shapePath_def split: if_splits)
    with Some obtain c cs where d0: "dropWhile isPathChar s = c # cs"
      by (cases "dropWhile isPathChar s") (auto simp: shapePath_def)
    with Some ne have c: "c = CHR '':''" and ds: "digitsAt cs = Some ds"
      by (auto simp: shapePath_def split: if_splits)
    from d0 c have d: "dropWhile isPathChar s = CHR '':'' # cs" by simp
    have "?F (CHR '':'' # cs) = matches True (Group 1 (PlusCls digitClass)) (cs, g)"
      by (simp add: matches_colon del: matches.simps(1) matches.simps(5))
    with m ne d have "matches True (Seq (PlusCls pathClass) ?Q) (s, g)
        = matches True (Group 1 (PlusCls digitClass)) (cs, g)"
      by (simp del: matches.simps)
    with Some ds show ?thesis by (simp only: matches_digits option.map)
  qed
qed

lemma matches_line:
  "firstCaps (matches True (Seq (Str ''line '') (Group 2 (PlusCls digitClass))) (s, g))
     = map_option (\<lambda>ds. g(2 \<mapsto> ds)) (shapeLine True s)"
proof (cases "stripLiteral True ''line '' s")
  case None
  then show ?thesis by (simp add: firstCaps_def shapeLine_def)
next
  case (Some r)
  then have "matches True (Seq (Str ''line '') (Group 2 (PlusCls digitClass))) (s, g)
      = matches True (Group 2 (PlusCls digitClass)) (r, g)"
    by (simp del: matches.simps(5) stripLiteral.simps)
  with Some show ?thesis by (simp add: shapeLine_def matches_digits del: matches.simps stripLiteral.simps)
qed

lemma matches_bracketed:
  "firstCaps (matches True
      (Seq (Str ''[Line '') (Seq (Group 3 (PlusCls digitClass)) (Str '']''))) (s, g))
     = map_option (\<lambda>ds. g(3 \<mapsto> ds)) (shapeBracket True s)"
proof (cases "stripLiteral True ''[Line '' s")
  case None
  then show ?thesis by (simp add: firstCaps_def shapeBracket_def)
next
  case (Some r)
  let ?F = "\<lambda>y. matches True (Str '']'') (y, g(3 \<mapsto> take (length r - length y) r))"
  have P: "classMatches True digitClass = isDigit"
    by (rule ext) (rule classMatches_digit)
  have F0: "\<And>c cs. isDigit c \<Longrightarrow> ?F (c # cs) = []"
    using bracket_not_digit by (auto simp: charMatches_bracket)
  have "matches True (Seq (Str ''[Line '') (Seq (Group 3 (PlusCls digitClass)) (Str '']''))) (s, g)
      = concat (map ?F (plusRests isDigit r))"
    using Some by (simp add: P comp_def del: stripLiteral.simps)
  also have "\<dots> = (if takeWhile isDigit r = [] then [] else ?F (dropWhile isDigit r))"
    using F0 by (rule concat_plusRests)
  finally have m:
    "matches True (Seq (Str ''[Line '') (Seq (Group 3 (PlusCls digitClass)) (Str '']''))) (s, g)
      = (if takeWhile isDigit r = [] then [] else ?F (dropWhile isDigit r))" .
  have tk: "\<And>y. dropWhile isDigit r = y \<Longrightarrow> take (length r - length y) r = takeWhile isDigit r"
    using take_takeWhile [of r isDigit] by simp
  show ?thesis
  proof (cases "shapeBracket True s")
    case None
    have "matches True (Seq (Str ''[Line '') (Seq (Group 3 (PlusCls digitClass)) (Str '']''))) (s, g) = []"
    proof (cases "takeWhile isDigit r = []")
      case True
      with m show ?thesis by (simp del: matches.simps)
    next
      case False
      have "?F (dropWhile isDigit r) = []"
      proof (cases "dropWhile isDigit r")
        case Nil
        show ?thesis unfolding Nil by (simp add: matches_bracket del: matches.simps)
      next
        case (Cons c cs)
        with None Some False have "c \<noteq> CHR '']''"
          by (auto simp: shapeBracket_def digitsAt_def simp del: stripLiteral.simps)
        then show ?thesis unfolding Cons by (simp add: matches_bracket del: matches.simps)
      qed
      with m False show ?thesis by (simp del: matches.simps)
    qed
    with None show ?thesis by (simp only: firstCaps_def list.case option.map)
  next
    case ds: (Some ds)
    have ne: "takeWhile isDigit r \<noteq> []"
      using ds Some
      by (auto simp: shapeBracket_def digitsAt_def simp del: stripLiteral.simps split: if_splits)
    with ds Some obtain c cs where d0: "dropWhile isDigit r = c # cs"
      by (cases "dropWhile isDigit r")
        (auto simp: shapeBracket_def digitsAt_def simp del: stripLiteral.simps)
    with ds Some ne have c: "c = CHR '']''" and dv: "ds = takeWhile isDigit r"
      by (auto simp: shapeBracket_def digitsAt_def simp del: stripLiteral.simps split: if_splits)
    from d0 c have d: "dropWhile isDigit r = CHR '']'' # cs" by simp
    have "?F (dropWhile isDigit r) = [(cs, g(3 \<mapsto> takeWhile isDigit r))]"
      using tk [OF d] d by (simp add: matches_bracket del: matches.simps)
    with m ne have "matches True
        (Seq (Str ''[Line '') (Seq (Group 3 (PlusCls digitClass)) (Str '']''))) (s, g)
        = [(cs, g(3 \<mapsto> takeWhile isDigit r))]"
      by (simp del: matches.simps)
    with ds dv show ?thesis by (simp only: firstCaps_def list.case option.map snd_conv)
  qed
qed

lemma digitsAt_nonempty: "digitsAt t = Some ds \<Longrightarrow> ds \<noteq> []"
  by (auto simp: digitsAt_def split: if_splits)

lemma shapePath_nonempty: "shapePath s = Some ds \<Longrightarrow> ds \<noteq> []"
  by (auto simp: shapePath_def dest: digitsAt_nonempty split: if_splits list.splits)

lemma shapeLine_nonempty: "shapeLine ic s = Some ds \<Longrightarrow> ds \<noteq> []"
  by (auto simp: shapeLine_def dest: digitsAt_nonempty split: option.splits)

lemma shapeBracket_nonempty: "shapeBracket ic s = Some ds \<Longrightarrow> ds \<noteq> []"
  by (auto simp: shapeBracket_def dest: digitsAt_nonempty split: option.splits list.splits if_splits)

lemma js_or_Some: "ds \<noteq> [] \<Longrightarrow> js_or (Some ds) b = Some ds"
  by (cases ds) (simp_all add: js_or_def)

lemma js_or_None: "js_or None b = b"
  by (simp add: js_or_def)

lemma matches_pattern:
  "(case firstCaps (matches True parseErrorPattern (s, Map.empty)) of
      None \<Rightarrow> shapeAt True s = None
    | Some g \<Rightarrow> shapeAt True s = matchedDigits g \<and> matchedDigits g \<noteq> None)"
proof -
  let ?A = "Seq (PlusCls pathClass) (Seq (Str '':'') (Group 1 (PlusCls digitClass)))"
  let ?B = "Seq (Str ''line '') (Group 2 (PlusCls digitClass))"
  let ?C = "Seq (Str ''[Line '') (Seq (Group 3 (PlusCls digitClass)) (Str '']''))"
  have split: "firstCaps (matches True parseErrorPattern (s, Map.empty)) =
      (case firstCaps (matches True ?A (s, Map.empty)) of
         Some g \<Rightarrow> Some g
       | None \<Rightarrow>
           (case firstCaps (matches True ?B (s, Map.empty)) of
              Some g \<Rightarrow> Some g
            | None \<Rightarrow> firstCaps (matches True ?C (s, Map.empty))))"
    unfolding parseErrorPattern_def matches.simps(4) firstCaps_append ..
  show ?thesis
  proof (cases "shapePath s")
    case (Some ds)
    then have "ds \<noteq> []" by (rule shapePath_nonempty)
    with Some show ?thesis
      unfolding split matches_path
      by (simp add: shapeAt_def matchedDigits_def js_or_Some)
  next
    case None
    note nopath = this
    show ?thesis
    proof (cases "shapeLine True s")
      case (Some ds)
      then have "ds \<noteq> []" by (rule shapeLine_nonempty)
      with Some nopath show ?thesis
        unfolding split matches_path matches_line
        by (simp add: shapeAt_def matchedDigits_def js_or_Some js_or_None)
    next
      case None
      note noline = this
      show ?thesis
      proof (cases "shapeBracket True s")
        case (Some ds)
        then have "ds \<noteq> []" by (rule shapeBracket_nonempty)
        with Some nopath noline show ?thesis
          unfolding split matches_path matches_line matches_bracketed
          by (simp add: shapeAt_def matchedDigits_def js_or_Some js_or_None)
      next
        case None
        with nopath noline show ?thesis
          unfolding split matches_path matches_line matches_bracketed
          by (simp add: shapeAt_def)
      qed
    qed
  qed
qed

lemma exec_firstCaps:
  "exec ic p [] = firstCaps (matches ic p ([], Map.empty))"
  "exec ic p (c # cs) =
     (case firstCaps (matches ic p (c # cs, Map.empty)) of
        None \<Rightarrow> exec ic p cs
      | Some g \<Rightarrow> Some g)"
  by (simp_all add: firstCaps_def split: list.splits)

lemma exec_firstShape:
  "(case exec True parseErrorPattern s of
      None \<Rightarrow> firstShape True s = None
    | Some g \<Rightarrow> firstShape True s = matchedDigits g \<and> matchedDigits g \<noteq> None)"
proof (induction s)
  case Nil
  show ?case
    using matches_pattern [of "[]"]
    unfolding exec_firstCaps firstShape.simps .
next
  case (Cons c cs)
  show ?case
  proof (cases "firstCaps (matches True parseErrorPattern (c # cs, Map.empty))")
    case None
    then have "shapeAt True (c # cs) = None"
      using matches_pattern [of "c # cs"] by simp
    with None Cons.IH show ?thesis
      unfolding exec_firstCaps firstShape.simps by (auto split: option.splits)
  next
    case (Some g)
    then have "shapeAt True (c # cs) = matchedDigits g" "matchedDigits g \<noteq> None"
      using matches_pattern [of "c # cs"] by simp_all
    with Some show ?thesis
      unfolding exec_firstCaps firstShape.simps by (auto split: option.splits)
  qed
qed

lemma parseError_extract: "parseError raw = extract_spec True raw"
proof (cases "exec True parseErrorPattern raw")
  case None
  then have "firstShape True raw = None"
    using exec_firstShape [of raw] by simp
  with None show ?thesis by (simp add: parseError_def extract_spec_def)
next
  case (Some g)
  then have "firstShape True raw = matchedDigits g" "matchedDigits g \<noteq> None"
    using exec_firstShape [of raw] by simp_all
  with Some show ?thesis
    by (auto simp: parseError_def extract_spec_def matchedDigits_def)
qed


section \<open>Facts about numbers\<close>

subsection \<open>Binary exponent and rounding\<close>

lemma bitlen_pos: "0 < a \<Longrightarrow> 0 < bitlen a"
  using bitlen_eq_zero_iff [of a] bitlen_nonneg [of a] by linarith

lemma powi2_nat: "0 \<le> k \<Longrightarrow> (2::rat) powi k = of_int (2 ^ nat k)"
  by (simp add: power_int_def)

lemma powi2_mono: "a \<le> b \<Longrightarrow> (2::rat) powi a \<le> 2 powi b"
  by (rule power_int_increasing) simp_all

lemma powi2_pos: "(0::rat) < 2 powi a"
  by simp

lemma ilog2_bounds:
  assumes "0 < x"
  shows "2 powi (ilog2 x) \<le> x \<and> x < 2 powi (ilog2 x + 1)"
proof (cases "1 \<le> x")
  case True
  define c where "c = \<lfloor>x\<rfloor>"
  define P where "P = (2::int) ^ nat (bitlen c)"
  define Q where "Q = (2::int) ^ nat (bitlen c - 1)"
  from True have cpos: "0 < c" by (simp add: c_def)
  have cx: "of_int c \<le> x" "x < of_int c + 1" unfolding c_def by linarith+
  from bitlen_bounds [OF cpos] have lo: "Q \<le> c" and hi: "c < P" by (auto simp: P_def Q_def)
  have bl: "0 < bitlen c" using cpos by (rule bitlen_pos)
  have p: "(2::rat) powi (bitlen c) = of_int P" using bl by (simp add: powi2_nat P_def)
  have q: "(2::rat) powi (bitlen c - 1) = of_int Q" using bl by (simp add: powi2_nat Q_def)
  have "(of_int Q :: rat) \<le> of_int c" using lo by (simp only: of_int_le_iff)
  with cx have A: "2 powi (bitlen c - 1) \<le> x" unfolding q by linarith
  have "c + 1 \<le> P" using hi by simp
  then have "(of_int (c + 1) :: rat) \<le> of_int P" by (simp only: of_int_le_iff)
  then have "(of_int c :: rat) + 1 \<le> of_int P" by simp
  with cx have "x < 2 powi (bitlen c)" unfolding p by linarith
  then have B: "x < 2 powi (bitlen c - 1 + 1)" by simp
  from A B True show ?thesis by (simp add: ilog2_def c_def)
next
  case False
  define y where "y = 1 / x"
  define c where "c = \<lceil>y\<rceil> - 1"
  define P where "P = (2::int) ^ nat (bitlen c)"
  define Q where "Q = (2::int) ^ nat (bitlen c - 1)"
  from False assms have y1: "1 < y" by (simp add: y_def)
  then have "1 < \<lceil>y\<rceil>" by (simp add: less_ceiling_iff)
  then have cpos: "0 < c" by (simp add: c_def)
  have cy: "of_int c < y" "y \<le> of_int c + 1" unfolding c_def by linarith+
  from bitlen_bounds [OF cpos] have lo: "Q \<le> c" and hi: "c < P" by (auto simp: P_def Q_def)
  have bl: "0 < bitlen c" using cpos by (rule bitlen_pos)
  have p: "(2::rat) powi (bitlen c) = of_int P" using bl by (simp add: powi2_nat P_def)
  have q: "(2::rat) powi (bitlen c - 1) = of_int Q" using bl by (simp add: powi2_nat Q_def)
  have "c + 1 \<le> P" using hi by simp
  then have "(of_int (c + 1) :: rat) \<le> of_int P" by (simp only: of_int_le_iff)
  then have "(of_int c :: rat) + 1 \<le> of_int P" by simp
  with cy have yhi: "y \<le> 2 powi (bitlen c)" unfolding p by linarith
  have "(of_int Q :: rat) \<le> of_int c" using lo by (simp only: of_int_le_iff)
  with cy have ylo: "2 powi (bitlen c - 1) < y" unfolding q by linarith
  have xy: "x = 1 / y" using assms by (simp add: y_def)
  have ppos: "(0::rat) < 2 powi (bitlen c)" "(0::rat) < 2 powi (bitlen c - 1)" by simp_all
  have A: "2 powi (- bitlen c) \<le> x"
    unfolding xy power_int_minus_divide using yhi y1 ppos by (simp add: frac_le)
  have "1 / y < 1 / 2 powi (bitlen c - 1)"
    using ylo ppos by (simp add: frac_less2)
  then have B: "x < 2 powi (- bitlen c + 1)"
    unfolding xy by (simp add: power_int_minus_divide [symmetric])
  from A B False show ?thesis by (simp add: ilog2_def y_def c_def)
qed

lemma ilog2_unique:
  assumes "2 powi E \<le> x" "x < 2 powi (E + 1)"
  shows "ilog2 x = E"
proof -
  have "(0::rat) < 2 powi E" by simp
  with assms have pos: "0 < x" by linarith
  from ilog2_bounds [OF pos] have b: "2 powi (ilog2 x) \<le> x" "x < 2 powi (ilog2 x + 1)" by auto
  have "\<not> ilog2 x + 1 \<le> E"
  proof
    assume "ilog2 x + 1 \<le> E"
    then have "(2::rat) powi (ilog2 x + 1) \<le> 2 powi E" by (rule powi2_mono)
    with b assms show False by linarith
  qed
  moreover have "\<not> E + 1 \<le> ilog2 x"
  proof
    assume "E + 1 \<le> ilog2 x"
    then have "(2::rat) powi (E + 1) \<le> 2 powi (ilog2 x)" by (rule powi2_mono)
    with b assms show False by linarith
  qed
  ultimately show ?thesis by linarith
qed

lemma ilog2_ge:
  assumes "2 powi E \<le> x"
  shows "E \<le> ilog2 x"
proof (rule ccontr)
  assume "\<not> E \<le> ilog2 x"
  then have "ilog2 x + 1 \<le> E" by simp
  then have "(2::rat) powi (ilog2 x + 1) \<le> 2 powi E" by (rule powi2_mono)
  moreover have "0 < x" using assms powi2_pos [of E] by linarith
  ultimately show False using ilog2_bounds [of x] assms by linarith
qed

lemma roundEven_error: "\<bar>of_int (roundEven m) - m\<bar> \<le> 1 / 2"
proof -
  have "of_int \<lfloor>m\<rfloor> \<le> m" "m < of_int \<lfloor>m\<rfloor> + 1" by linarith+
  then show ?thesis
    by (auto simp: roundEven_def Let_def abs_le_iff)
qed

lemma roundEven_unique:
  assumes "\<bar>m - of_int k\<bar> < 1 / 2"
  shows "roundEven m = k"
proof -
  have e: "\<bar>of_int (roundEven m) - m\<bar> \<le> 1 / 2" by (rule roundEven_error)
  have "\<bar>(of_int (roundEven m) :: rat) - of_int k\<bar> < 1" using e assms by linarith
  then have "\<bar>(of_int (roundEven m - k) :: rat)\<bar> < 1" by simp
  then have "\<bar>roundEven m - k\<bar> < 1"
    by (metis of_int_abs of_int_less_1_iff)
  then show ?thesis by linarith
qed

subsection \<open>Rounding to binary64\<close>

lemma fl_pos_eq:
  assumes "2 powi (- 1022) \<le> x"
  shows "fl x = of_int (roundEven (x / 2 powi (ilog2 x - 52))) * 2 powi (ilog2 x - 52)"
proof -
  have pos: "0 < x" using assms powi2_pos [of "- 1022"] by linarith
  have "- 1022 \<le> ilog2 x" using assms by (rule ilog2_ge)
  then have "max (ilog2 x - 52) (- 1074) = ilog2 x - 52" by simp
  with pos show ?thesis by (simp add: fl_def flpos_def Let_def)
qed

text \<open>The relative error of one rounding is at most \<open>2 powi (- 53)\<close>.\<close>

lemma fl_error:
  assumes "2 powi (- 1022) \<le> x"
  shows "\<bar>fl x - x\<bar> \<le> x * 2 powi (- 53)"
proof -
  define e where "e = ilog2 x - 52"
  define m where "m = x / 2 powi e"
  have pos: "0 < x" using assms powi2_pos [of "- 1022"] by linarith
  have f: "fl x = of_int (roundEven m) * 2 powi e"
    using fl_pos_eq [OF assms] by (simp add: e_def m_def)
  have x: "x = m * 2 powi e" by (simp add: m_def)
  have "(of_int (roundEven m) - m) * 2 powi e = of_int (roundEven m) * 2 powi e - m * 2 powi e"
    by (simp add: algebra_simps)
  with f x have "fl x - x = (of_int (roundEven m) - m) * 2 powi e"
    by simp
  then have "\<bar>fl x - x\<bar> = \<bar>of_int (roundEven m) - m\<bar> * 2 powi e"
    by (simp add: abs_mult)
  also have "\<dots> \<le> (1 / 2) * 2 powi e"
    by (rule mult_right_mono [OF roundEven_error]) simp
  also have "\<dots> = 2 powi (ilog2 x) * 2 powi (- 53)"
  proof -
    have h1: "(2::rat) powi (ilog2 x) * 2 powi (- 53) = 2 powi (ilog2 x + (- 53))"
      by (rule power_int_add [symmetric]) simp
    have h2: "(2::rat) powi (e + (- 1)) = 2 powi e * 2 powi (- 1)"
      by (rule power_int_add) simp
    have h3: "ilog2 x + (- 53) = e + (- 1)" by (simp add: e_def)
    have h4: "(1 / 2) * 2 powi e = 2 powi e * (2::rat) powi (- 1)" by simp
    show ?thesis unfolding h1 h3 h2 h4 ..
  qed
  also have "\<dots> \<le> x * 2 powi (- 53)"
    using ilog2_bounds [OF pos] by (intro mult_right_mono) simp_all
  finally show ?thesis .
qed

text \<open>A value with 53 significant bits in the normal range is not changed.\<close>

lemma fl_eqI:
  assumes "2 powi E \<le> x" "x < 2 powi (E + 1)" "- 1022 \<le> E"
    and "\<bar>x / 2 powi (E - 52) - of_int m\<bar> < 1 / 2"
  shows "fl x = of_int m * 2 powi (E - 52)"
proof -
  have E: "ilog2 x = E" using assms(1,2) by (rule ilog2_unique)
  have "(2::rat) powi (- 1022) \<le> 2 powi E" using assms(3) by (rule powi2_mono)
  with assms(1) have "2 powi (- 1022) \<le> x" by linarith
  from fl_pos_eq [OF this] roundEven_unique [OF assms(4)] E show ?thesis by simp
qed

lemma fl_0: "fl 0 = 0"
  by (simp add: fl_def)

lemma fl_1: "fl 1 = 1"
  using fl_eqI [of 0 1 "2 ^ 52"] by simp

lemma fl_12: "fl 12 = 12"
  using fl_eqI [of 3 12 "12 * 2 ^ 49"] by simp

lemma fl_7: "fl 7 = 7"
  using fl_eqI [of 2 7 "7 * 2 ^ 50"] by simp

lemma js_of_rat_12: "js_of_rat 12 = Fin 12"
  by (simp add: js_of_rat_def fl_12 Let_def)

lemma js_of_rat_Fin: "- (2 powi 1024) < fl q \<Longrightarrow> fl q < 2 powi 1024 \<Longrightarrow> js_of_rat q = Fin (fl q)"
  by (simp add: js_of_rat_def Let_def)

lemma js_of_rat_0: "js_of_rat 0 = Fin 0"
  by (simp add: js_of_rat_def fl_0 Let_def)

text \<open>
  The score of \<open>p\<close> Accepted results out of \<open>n\<close>: the quotient and the product are each
  rounded to binary64, and \<open>toFixed(2)\<close> rounds the result to hundredths, a tie going
  up. The outcome is a two-decimal value nearest to the exact \<open>100 * p / n\<close>, because
  the two roundings move the value by less than what separates \<open>10000 * p / n\<close> from
  the nearest half-integer that it does not equal.
\<close>

lemma score_rounding:
  fixes p n :: nat
  assumes n: "0 < n" and pn: "p \<le> n" and small: "n < 2 ^ 32"
    and K: "K = \<lfloor>fl (fl (of_nat p / of_nat n) * 100) * 100 + 1 / 2\<rfloor>"
  shows "parseFloat (toFixed2 (js_mul (js_div (Fin (of_nat p)) (Fin (of_nat n))) (Fin 100)))
             = js_of_rat (of_int K / 100)
           \<and> \<bar>of_int K / 100 - 100 * of_nat p / of_nat n\<bar> \<le> (1 / 200 :: rat)"
proof (cases "p = 0")
  case True
  have half: "\<lfloor>1 / 2 :: rat\<rfloor> = 0" by linarith
  have K0: "K = 0" unfolding K using True half by (simp add: fl_0)
  have "parseFloat (toFixed2 (js_mul (js_div (Fin (of_nat p)) (Fin (of_nat n))) (Fin 100)))
      = js_of_rat (of_int K / 100)"
    unfolding K0 using True n half by (simp add: js_of_rat_0)
  moreover have "\<bar>of_int K / 100 - 100 * of_nat p / of_nat n\<bar> \<le> (1 / 200 :: rat)"
    unfolding K0 using True by simp
  ultimately show ?thesis by (intro conjI)
next
  case False
  define u :: rat where "u = 2 powi (- 53)"
  define x :: rat where "x = of_nat p / of_nat n"
  define d1 where "d1 = fl x"
  define y where "y = d1 * 100"
  define d2 where "d2 = fl y"
  have K_def: "K = \<lfloor>d2 * 100 + 1 / 2\<rfloor>"
    unfolding d2_def y_def d1_def x_def by (rule K)
  have u0: "0 < u" and u1: "u \<le> 1 / 2" and un: "60000 * 2 ^ 32 * u < 1"
    by (simp_all add: u_def)
  have npos: "(0::rat) < of_nat n" using n by simp
  have nb: "(of_nat n :: rat) < 2 ^ 32"
    using small by (metis of_nat_less_iff of_nat_numeral of_nat_power)
  have p1: "(1::rat) \<le> of_nat p" using False by simp
  have x0: "0 < x" using False npos by (simp add: x_def)
  have x1: "x \<le> 1" using pn npos by (simp add: x_def)
  have "1 / 2 ^ 32 < 1 / (of_nat n :: rat)"
    using nb npos by (simp add: frac_less2)
  also have "\<dots> \<le> x"
    unfolding x_def using p1 npos by (simp add: divide_right_mono)
  finally have "1 / 2 ^ 32 < x" .
  then have xlo: "1 / 4294967296 < x" by simp
  have "(2::rat) powi (- 1022) \<le> 1 / 4294967296" by simp
  with xlo have xn: "2 powi (- 1022) \<le> x" by linarith
  have e1: "\<bar>d1 - x\<bar> \<le> x * u"
    unfolding d1_def u_def using xn by (rule fl_error)
  have xu: "x * u \<le> x / 2" using u1 x0 by (simp add: mult_left_mono)
  have d1lo: "x / 2 \<le> d1" and d1hi: "d1 \<le> x + x * u" using e1 xu by linarith+
  have d1_2: "d1 \<le> 2" using d1hi xu x1 by linarith
  have "fl x < 2 powi 1024" "- (2 powi 1024) < fl x"
    using d1_2 d1lo x0 unfolding d1_def by simp_all
  then have div: "js_div (Fin (of_nat p)) (Fin (of_nat n)) = Fin d1"
    using n by (simp add: js_of_rat_Fin x_def d1_def)
  have "(2::rat) powi (- 1022) \<le> 100 * (1 / 4294967296 / 2)" by simp
  also have "\<dots> \<le> y" unfolding y_def using d1lo xlo by linarith
  finally have yn: "2 powi (- 1022) \<le> y" .
  have y0: "0 < y" using d1lo x0 by (simp add: y_def)
  have e2: "\<bar>d2 - y\<bar> \<le> y * u"
    unfolding d2_def u_def using yn by (rule fl_error)
  have yu: "y * u \<le> y / 2" using u1 y0 by (simp add: mult_left_mono)
  have d2lo: "0 \<le> d2" and d2hi: "d2 \<le> 400"
    using e2 yu y0 d1_2 unfolding y_def by linarith+
  have "fl y < 2 powi 1024" "- (2 powi 1024) < fl y"
    using d2lo d2hi unfolding d2_def by simp_all
  then have mul: "js_mul (Fin d1) (Fin 100) = Fin d2"
    by (simp add: js_of_rat_Fin y_def d2_def)
  have fixed: "toFixed2 (Fin d2) = TextFixed K"
    using d2lo d2hi by (simp add: K_def)
  have res: "parseFloat (toFixed2 (js_mul (js_div (Fin (of_nat p)) (Fin (of_nat n))) (Fin 100)))
      = js_of_rat (of_int K / 100)"
    by (simp only: div mul fixed parseFloat.simps)
  \<comment> \<open>the two roundings move the value by less than what separates it from a tie\<close>
  have xu0: "0 \<le> x * u" using x0 u0 by simp
  have "x * u * u \<le> x * u * 1"
    using xu0 u1 by (intro mult_left_mono) simp_all
  then have xuu: "x * u * u \<le> x * u" by simp
  have "y \<le> 100 * x + 100 * (x * u)"
    using d1hi unfolding y_def by linarith
  then have "y * u \<le> (100 * x + 100 * (x * u)) * u"
    using u0 by (intro mult_right_mono) simp_all
  also have "\<dots> = 100 * (x * u) + 100 * (x * u * u)" by (simp add: algebra_simps)
  finally have yu2: "y * u \<le> 200 * (x * u)" using xuu by linarith
  have b1: "d1 - x \<le> x * u" "x - d1 \<le> x * u" using e1 by linarith+
  have b2: "d2 - y \<le> y * u" "y - d2 \<le> y * u" using e2 by linarith+
  have "\<bar>d2 - 100 * x\<bar> \<le> 300 * (x * u)"
    using b1 b2 yu2 unfolding y_def by linarith
  moreover have "x * u \<le> 1 * u"
    using x1 u0 by (intro mult_right_mono) simp_all
  ultimately have close: "\<bar>d2 - 100 * x\<bar> \<le> 300 * u" by linarith
  have Kb: "of_int K \<le> d2 * 100 + 1 / 2" "d2 * 100 + 1 / 2 < of_int K + 1"
    unfolding K_def by linarith+
  with close have near: "\<bar>of_int K - 10000 * x\<bar> \<le> 1 / 2 + 30000 * u" by linarith
  define D :: int where "D = K * int n - 10000 * int p"
  have Dx: "(of_int D :: rat) = (of_int K - 10000 * x) * of_nat n"
    using npos by (simp add: D_def x_def algebra_simps)
  have "\<bar>(of_int D :: rat)\<bar> = \<bar>of_int K - 10000 * x\<bar> * of_nat n"
    unfolding Dx using npos by (simp add: abs_mult)
  also have "\<dots> \<le> (1 / 2 + 30000 * u) * of_nat n"
    using near npos by (simp add: mult_right_mono)
  finally have "2 * \<bar>(of_int D :: rat)\<bar> \<le> of_nat n + 60000 * u * of_nat n"
    by (simp add: algebra_simps)
  moreover have "60000 * u * (of_nat n :: rat) < 1"
  proof -
    have "60000 * u * (of_nat n :: rat) \<le> 60000 * u * 2 ^ 32"
      using nb u0 by (simp add: mult_left_mono)
    with un show ?thesis by (simp add: algebra_simps)
  qed
  ultimately have "2 * \<bar>(of_int D :: rat)\<bar> < of_nat n + 1" by linarith
  then have "(of_int (2 * \<bar>D\<bar>) :: rat) < of_int (int n + 1)" by simp
  then have "2 * \<bar>D\<bar> < int n + 1" by (simp only: of_int_less_iff)
  then have "2 * \<bar>D\<bar> \<le> int n" by linarith
  then have "(of_int (2 * \<bar>D\<bar>) :: rat) \<le> of_int (int n)" by (simp only: of_int_le_iff)
  then have D2: "2 * \<bar>(of_int D :: rat)\<bar> \<le> of_nat n" by simp
  have "\<bar>of_int K - 10000 * x\<bar> = \<bar>(of_int D :: rat)\<bar> / of_nat n"
    unfolding Dx using npos by (simp add: abs_mult)
  also have "\<dots> \<le> (of_nat n / 2) / of_nat n"
    using D2 npos by (intro divide_right_mono) simp_all
  also have "\<dots> = 1 / 2" using npos by simp
  finally have "\<bar>of_int K - 10000 * x\<bar> \<le> 1 / 2" .
  then have "\<bar>of_int K / 100 - 100 * x\<bar> \<le> 1 / 200" by linarith
  then have "\<bar>of_int K / 100 - 100 * of_nat p / of_nat n\<bar> \<le> (1 / 200 :: rat)"
    by (simp add: x_def)
  with res show ?thesis by (intro conjI)
qed

text \<open>At a tie of the exact quotient the roundings decide: \<open>23 / 160\<close> is rounded down to
  binary64, so is its product with 100, and the result lies below \<open>14.375\<close>.\<close>

lemma fl_23_160: "fl (23 / 160) = 5179139571476070 * 2 powi (- 55)"
  using fl_eqI [of "- 3" "23 / 160" 5179139571476070] by simp

lemma fl_23_160_100:
  "fl (fl (23 / 160) * 100) = 8092405580431359 * 2 powi (- 49)"
  unfolding fl_23_160
  using fl_eqI [of 3 "5179139571476070 * 2 powi (- 55) * 100" 8092405580431359] by simp

lemma hundredths_23_160: "\<lfloor>fl (fl (23 / 160) * 100) * 100 + 1 / 2 :: rat\<rfloor> = 1437"
  unfolding fl_23_160_100 by (simp add: floor_eq_iff)

lemma fl_100: "fl 100 = 100"
  using fl_eqI [of 6 100 "100 * 2 ^ 46"] by simp

lemma js_of_rat_100: "js_of_rat 100 = Fin 100"
  by (simp add: js_of_rat_def fl_100 Let_def)

lemma js_of_rat_1: "js_of_rat 1 = Fin 1"
  by (simp add: js_of_rat_def fl_1 Let_def)

lemma fl_1437: "fl (1437 / 100) = 8089590830664253 * 2 powi (- 49)"
  using fl_eqI [of 3 "1437 / 100" 8089590830664253] by simp

lemma fl_1438: "fl (1438 / 100) = 8095220330198467 * 2 powi (- 49)"
  using fl_eqI [of 3 "1438 / 100" 8095220330198467] by simp

lemma js_of_rat_1437: "js_of_rat (1437 / 100) = Fin (8089590830664253 * 2 powi (- 49))"
  unfolding js_of_rat_def Let_def fl_1437 by simp

lemma js_of_rat_1438: "js_of_rat (1438 / 100) = Fin (8095220330198467 * 2 powi (- 49))"
  unfolding js_of_rat_def Let_def fl_1438 by simp

section \<open>Facts about the orchestrator\<close>

lemma findIndex_nonneg: "- 1 \<le> findIndex p xs"
  by (induction xs) (auto simp: Let_def)

lemma findIndex_none: "findIndex p xs = - 1 \<longleftrightarrow> (\<forall>x \<in> set xs. \<not> p x)"
proof (induction xs)
  case Nil
  then show ?case by simp
next
  case (Cons x xs)
  have "findIndex p xs + 1 \<noteq> - 1" using findIndex_nonneg [of p xs] by linarith
  with Cons show ?case by (auto simp: Let_def)
qed

lemma findIndex_first:
  "findIndex p xs \<noteq> - 1 \<Longrightarrow>
     nat (findIndex p xs) < length xs \<and> p (xs ! nat (findIndex p xs))
     \<and> (\<forall>j < nat (findIndex p xs). \<not> p (xs ! j))"
proof (induction xs)
  case Nil
  then show ?case by simp
next
  case (Cons x xs)
  show ?case
  proof (cases "p x")
    case True
    then show ?thesis by simp
  next
    case False
    with Cons.prems have ne: "findIndex p xs \<noteq> - 1" by (auto simp: Let_def split: if_splits)
    with findIndex_nonneg [of p xs] have nn: "0 \<le> findIndex p xs" by linarith
    from False ne have eq: "findIndex p (x # xs) = findIndex p xs + 1" by (simp add: Let_def)
    from nn have n: "nat (findIndex p xs + 1) = Suc (nat (findIndex p xs))" by simp
    from Cons.IH [OF ne] False show ?thesis
      unfolding eq n by (auto simp: less_Suc_eq_0_disj)
  qed
qed

lemma findIndex_least:
  assumes "i < length xs" "p (xs ! i)" "\<forall>j < i. \<not> p (xs ! j)"
  shows "findIndex p xs = int i"
proof -
  have "xs ! i \<in> set xs" using assms(1) by simp
  with assms(2) have "\<exists>x \<in> set xs. p x" by blast
  then have ne: "findIndex p xs \<noteq> - 1" by (simp add: findIndex_none)
  from findIndex_first [OF ne] assms have "nat (findIndex p xs) = i"
    by (metis linorder_neqE_nat)
  with findIndex_nonneg [of p xs] ne show ?thesis by linarith
qed

text \<open>What the second part of Submit leaves behind.\<close>

lemma submitSettled_outcome:
  assumes "length results \<le> length (testCases problem)"
  shows "case submitSettled problem lang src results w of
           Inl err \<Rightarrow> False
         | Inr w' \<Rightarrow>
             attempts w' = attempts w @ [attemptOf problem lang src results]
             \<and> overallSubmissionStatus (ui w') = Some (overallOf results)
             \<and> map result (the (submissionResults (ui w'))) = results
             \<and> evaluations w' = evaluations w
             \<and> isExecuting (ui w') = False"
proof -
  have m: "map result (map (displayResult problem results) [0..<length results]) = results"
    by (simp add: displayResult_def comp_def map_nth)
  show ?thesis
    using assms m
    by (simp add: submitSettled_def firstFailure_def attemptOf_def overallOf_def Let_def
        split: option.splits)
qed

lemma submit_outcome:
  assumes "user (rendered w) = Some uid" "activeCodingProblem (rendered w) = Some problem"
    "\<not> isExecuting (rendered w)" "length results \<le> length (testCases problem)"
  shows "case submit results w of
           Inl err \<Rightarrow> False
         | Inr w' \<Rightarrow>
             attempts w' = attempts w @ [attemptOf problem (language (rendered w)) (code (rendered w)) results]
             \<and> overallSubmissionStatus (ui w') = Some (overallOf results)
             \<and> map result (the (submissionResults (ui w'))) = results
             \<and> evaluations w' = evaluations w
             \<and> isExecuting (ui w') = False"
proof -
  let ?w1 = "(handleSubmitCode (rendered w) w)\<lparr>evaluations := evaluations w\<rparr>"
  have s: "submit results w = submitSettled problem (language (rendered w)) (code (rendered w)) results ?w1"
    using assms by (simp add: submit_def)
  have a: "attempts ?w1 = attempts w" "evaluations ?w1 = evaluations w"
    using assms by (simp_all add: handleSubmitCode_def)
  from submitSettled_outcome [OF assms(4), where lang = "language (rendered w)" and src = "code (rendered w)" and w = ?w1]
  show ?thesis unfolding s a .
qed

lemma overallOf_all: "(\<forall>r \<in> set results. status r = Accepted) \<Longrightarrow> overallOf results = Accepted"
  by (simp add: overallOf_def firstFailure_def findIndex_none)

lemma overallOf_first:
  assumes "i < length results" "status (results ! i) \<noteq> Accepted"
    "\<forall>j < i. status (results ! j) = Accepted"
  shows "overallOf results = status (results ! i)"
proof -
  have "firstFailure results = int i"
    unfolding firstFailure_def using assms by (intro findIndex_least) simp_all
  then show ?thesis by (simp add: overallOf_def)
qed

lemma attemptOf_status:
  "t_status (attemptOf problem lang src results) = Passed
     \<longleftrightarrow> (\<forall>r \<in> set results. status r = Accepted)"
  "t_status (attemptOf problem lang src results) = Failed
     \<longleftrightarrow> (\<exists>r \<in> set results. status r \<noteq> Accepted)"
  by (simp_all add: attemptOf_def firstFailure_def findIndex_none)

lemma attemptOf_score:
  "score (attemptOf problem lang src results)
     = submissionScore (map (displayResult problem results) [0..<length results])"
  by (simp add: attemptOf_def)

lemma guard_idle:
  "user (rendered (idleSession p)) = Some ''u1''"
  "activeCodingProblem (rendered (idleSession p)) = Some p"
  "\<not> isExecuting (rendered (idleSession p))"
  "attempts (idleSession p) = []"
  "evaluations (idleSession p) = []"
  by (simp_all add: idleSession_def idleState_def)

lemma testCases_someProblem: "testCases (someProblem hidden) = hidden"
  by (simp add: someProblem_def)

lemma evaluate_no_cases: "evaluateCodeWithAI lang src [] problem reply = []"
  by (cases reply) (simp_all add: evaluateCodeWithAI_def attachExpected_def)

lemma handleSubmitCode_started:
  assumes "user r = Some uid" "activeCodingProblem r = Some problem" "\<not> isExecuting r"
  shows "\<exists>ev. evaluations (handleSubmitCode r w) = evaluations w @ [ev]
     \<and> kind ev = SubmitEvaluation \<and> e_problem ev = problem \<and> e_language ev = language r
     \<and> e_code ev = code r \<and> e_cases ev = submitCases problem"
  using assms by (simp add: handleSubmitCode_def submitCases_def)

lemma settle_submit:
  assumes "kind ev = SubmitEvaluation"
  shows "settle ev reply w =
     (case submitSettled (e_problem ev) (e_language ev) (e_code ev)
             (evaluateCodeWithAI (e_language ev) (e_code ev) (e_cases ev) (e_problem ev) reply) w
      of Inl err \<Rightarrow> w | Inr w' \<Rightarrow> w')"
  using assms by (simp add: settle_def Let_def)

lemma run_submit:
  assumes "user (rendered w) = Some uid" "activeCodingProblem (rendered w) = Some problem"
    "\<not> isExecuting (rendered w)"
  shows "run [SubmitClicked, EvaluationSettled (length (evaluations w)) reply] w =
     (case submit (evaluateCodeWithAI (language (rendered w)) (code (rendered w)) (submitCases problem)
                    problem reply) w
      of Inl err \<Rightarrow> (handleSubmitCode (rendered w) w)\<lparr>evaluations := evaluations w\<rparr> | Inr w' \<Rightarrow> w')"
proof -
  define w1 where "w1 = handleSubmitCode (rendered w) w"
  define n where "n = length (evaluations w)"
  from handleSubmitCode_started [OF assms] obtain ev
    where ev: "evaluations w1 = evaluations w @ [ev]" "kind ev = SubmitEvaluation"
      "e_problem ev = problem" "e_language ev = language (rendered w)" "e_code ev = code (rendered w)"
      "e_cases ev = submitCases problem"
    unfolding w1_def by blast
  have n: "n < length (evaluations w1)" "evaluations w1 ! n = ev"
    "take n (evaluations w1) @ drop (Suc n) (evaluations w1) = evaluations w"
    unfolding ev(1) n_def by simp_all
  have "run [SubmitClicked, EvaluationSettled n reply] w = step (EvaluationSettled n reply) w1"
    by (simp only: run_def foldl.simps step.simps(3) w1_def)
  also have "\<dots> = settle ev reply (w1\<lparr>evaluations := evaluations w\<rparr>)"
    using n by (simp only: step.simps if_True)
  also have "\<dots> =
     (case submitSettled problem (language (rendered w)) (code (rendered w))
             (evaluateCodeWithAI (language (rendered w)) (code (rendered w)) (submitCases problem) problem reply)
             (w1\<lparr>evaluations := evaluations w\<rparr>)
      of Inl err \<Rightarrow> w1\<lparr>evaluations := evaluations w\<rparr> | Inr w' \<Rightarrow> w')"
    unfolding settle_submit [OF ev(2)] ev ..
  also have "submitSettled problem (language (rendered w)) (code (rendered w))
             (evaluateCodeWithAI (language (rendered w)) (code (rendered w)) (submitCases problem) problem reply)
             (w1\<lparr>evaluations := evaluations w\<rparr>)
     = submit (evaluateCodeWithAI (language (rendered w)) (code (rendered w)) (submitCases problem)
                    problem reply) w"
    unfolding submit_def w1_def using assms by (simp only: option.case if_False)
  finally show ?thesis unfolding n_def w1_def .
qed

lemma submitCases_length: "length (submitCases problem) = length (testCases problem)"
  by (simp add: submitCases_def)

lemma length_filter_nth:
  "length (filter (\<lambda>i. P (xs ! i)) [0..<length xs]) = length (filter P xs)"
proof -
  have "filter P xs = filter P (map (\<lambda>i. xs ! i) [0..<length xs])"
    by (simp add: map_nth)
  also have "\<dots> = map (\<lambda>i. xs ! i) (filter (\<lambda>i. P (xs ! i)) [0..<length xs])"
    by (simp add: filter_map comp_def)
  finally show ?thesis by simp
qed

lemma passedCount:
  "length (filter passed (map (displayResult problem results) [0..<length results]))
     = length (filter (\<lambda>r. status r = Accepted) results)"
proof -
  have "filter passed (map (displayResult problem results) [0..<length results])
      = map (displayResult problem results)
          (filter (\<lambda>i. status (results ! i) = Accepted) [0..<length results])"
    by (simp add: filter_map comp_def displayResult_def)
  then show ?thesis
    using length_filter_nth [of "\<lambda>r. status r = Accepted" results] by simp
qed

lemma attemptOf_score_count:
  "score (attemptOf problem lang src results)
     = parseFloat (toFixed2 (js_mul
         (js_div (Fin (of_nat (length (filter (\<lambda>r. status r = Accepted) results))))
                 (Fin (of_nat (length results))))
         (Fin 100)))"
  unfolding attemptOf_score submissionScore_def Let_def passedCount by simp

lemma evaluate_failure:
  "evaluateCodeWithAI lang src cases problem OracleFailure
     = replicate (length cases) syntheticResult"
  by (simp add: evaluateCodeWithAI_def map_replicate_const)

lemma evaluate_uncaught_failure:
  "evaluateCodeWithAI_uncaught lang src cases problem OracleFailure = Inl OracleError"
  by (simp add: evaluateCodeWithAI_uncaught_def)

lemma evaluate_too_many:
  "length cases < length rs \<Longrightarrow>
     evaluateCodeWithAI lang src cases problem (OracleResults rs)
       = replicate (length cases) syntheticResult"
  by (simp add: evaluateCodeWithAI_def attachExpected_def map_replicate_const)

lemma evaluate_results:
  assumes "length rs \<le> length cases"
  shows "evaluateCodeWithAI lang src cases problem (OracleResults rs)
     = map (\<lambda>(res, c). res\<lparr>expectedOutput := c_expectedOutput c\<rparr>) (zip rs cases)"
proof -
  have "evaluateCodeWithAI lang src cases problem (OracleResults rs)
      = map (\<lambda>index. (rs ! index)\<lparr>expectedOutput := c_expectedOutput (cases ! index)\<rparr>)
          [0..<length rs]"
    using assms by (simp add: evaluateCodeWithAI_def attachExpected_def)
  also have "\<dots> = map (\<lambda>(res, c). res\<lparr>expectedOutput := c_expectedOutput c\<rparr>) (zip rs cases)"
    using assms by (intro nth_equalityI) simp_all
  finally show ?thesis .
qed

lemma evaluate_in_order:
  assumes "length rs \<le> length cases"
  shows "length (evaluateCodeWithAI lang src cases problem (OracleResults rs)) = length rs"
    and "map status (evaluateCodeWithAI lang src cases problem (OracleResults rs)) = map status rs"
    and "map expectedOutput (evaluateCodeWithAI lang src cases problem (OracleResults rs))
           = map c_expectedOutput (take (length rs) cases)"
proof -
  have e: "evaluateCodeWithAI lang src cases problem (OracleResults rs)
      = map (\<lambda>index. (rs ! index)\<lparr>expectedOutput := c_expectedOutput (cases ! index)\<rparr>)
          [0..<length rs]"
    using assms by (simp add: evaluateCodeWithAI_def attachExpected_def)
  show "length (evaluateCodeWithAI lang src cases problem (OracleResults rs)) = length rs"
    unfolding e by simp
  show "map status (evaluateCodeWithAI lang src cases problem (OracleResults rs)) = map status rs"
    unfolding e by (intro nth_equalityI) simp_all
  show "map expectedOutput (evaluateCodeWithAI lang src cases problem (OracleResults rs))
      = map c_expectedOutput (take (length rs) cases)"
    unfolding e using assms by (intro nth_equalityI) simp_all
qed

lemma run_submit_outcome:
  assumes "user (rendered w) = Some uid" "activeCodingProblem (rendered w) = Some problem"
    "\<not> isExecuting (rendered w)"
  shows "\<exists>w'. run [SubmitClicked, EvaluationSettled (length (evaluations w)) reply] w = w'
     \<and> attempts w' = attempts w @
         [attemptOf problem (language (rendered w)) (code (rendered w))
            (evaluateCodeWithAI (language (rendered w)) (code (rendered w)) (submitCases problem) problem reply)]
     \<and> overallSubmissionStatus (ui w') =
         Some (overallOf (evaluateCodeWithAI (language (rendered w)) (code (rendered w)) (submitCases problem)
                 problem reply))
     \<and> map result (the (submissionResults (ui w')))
         = evaluateCodeWithAI (language (rendered w)) (code (rendered w)) (submitCases problem) problem reply"
proof -
  let ?rs = "evaluateCodeWithAI (language (rendered w)) (code (rendered w)) (submitCases problem) problem reply"
  have len: "length ?rs \<le> length (testCases problem)"
  proof (cases reply)
    case OracleFailure
    then show ?thesis by (simp add: evaluate_failure submitCases_length)
  next
    case (OracleResults rs)
    show ?thesis
    proof (cases "length rs \<le> length (submitCases problem)")
      case True
      then show ?thesis
        unfolding OracleResults by (simp add: evaluate_in_order(1) submitCases_length)
    next
      case False
      then show ?thesis
        unfolding OracleResults by (simp add: evaluate_too_many submitCases_length)
    qed
  qed
  note out = submit_outcome [OF assms len]
  obtain w' where w': "submit ?rs w = Inr w'"
    using out by (cases "submit ?rs w") simp_all
  have r: "run [SubmitClicked, EvaluationSettled (length (evaluations w)) reply] w = w'"
    unfolding run_submit [OF assms] w' by simp
  show ?thesis
    using out unfolding r w' by simp
qed

text \<open>Two hidden cases, and the oracle returns the single result Accepted.\<close>

lemma evaluate_short_reply:
  "evaluateCodeWithAI JavaScript ''return n * n'' (submitCases (someProblem (hiddenCases 2)))
     (someProblem (hiddenCases 2)) (OracleResults [verdict Accepted])
     = [(verdict Accepted)\<lparr>expectedOutput := Some ''4''\<rparr>]"
  by (simp add: evaluateCodeWithAI_def attachExpected_def submitCases_def testCases_someProblem
      hiddenCases_def numeral_2_eq_2)

lemma run_short_reply:
  "attempts (run [SubmitClicked, EvaluationSettled 0 (OracleResults [verdict Accepted])]
               (idleSession (someProblem (hiddenCases 2))))
     = [attemptOf (someProblem (hiddenCases 2)) JavaScript ''return n * n''
          [(verdict Accepted)\<lparr>expectedOutput := Some ''4''\<rparr>]]"
  "map result
     (the (submissionResults
        (ui (run [SubmitClicked, EvaluationSettled 0 (OracleResults [verdict Accepted])]
               (idleSession (someProblem (hiddenCases 2)))))))
     = [(verdict Accepted)\<lparr>expectedOutput := Some ''4''\<rparr>]"
proof -
  let ?p = "someProblem (hiddenCases 2)"
  let ?w = "idleSession ?p"
  let ?run = "run [SubmitClicked, EvaluationSettled 0 (OracleResults [verdict Accepted])] ?w"
  have lc: "language (rendered ?w) = JavaScript" "code (rendered ?w) = ''return n * n''"
    by (simp_all add: idleSession_def idleState_def)
  from run_submit_outcome [OF guard_idle(1) guard_idle(2) guard_idle(3),
      of ?p "OracleResults [verdict Accepted]"]
  show "attempts ?run
      = [attemptOf ?p JavaScript ''return n * n'' [(verdict Accepted)\<lparr>expectedOutput := Some ''4''\<rparr>]]"
    and "map result (the (submissionResults (ui ?run)))
      = [(verdict Accepted)\<lparr>expectedOutput := Some ''4''\<rparr>]"
    unfolding guard_idle lc list.size evaluate_short_reply by simp_all
qed

lemma run_no_cases:
  "overallSubmissionStatus
     (ui (run [SubmitClicked, EvaluationSettled 0 reply] (idleSession (someProblem []))))
     = Some Accepted"
  "map t_status
     (attempts (run [SubmitClicked, EvaluationSettled 0 reply] (idleSession (someProblem []))))
     = [Passed]"
  "map score
     (attempts (run [SubmitClicked, EvaluationSettled 0 reply] (idleSession (someProblem []))))
     = [NaN]"
proof -
  let ?w = "idleSession (someProblem [])"
  have c: "submitCases (someProblem []) = []"
    by (simp add: submitCases_def testCases_someProblem)
  from run_submit_outcome [OF guard_idle(1) guard_idle(2) guard_idle(3), of "someProblem []" reply]
  have a: "attempts (run [SubmitClicked, EvaluationSettled 0 reply] ?w)
        = [attemptOf (someProblem []) (language (rendered ?w)) (code (rendered ?w)) []]"
    and o: "overallSubmissionStatus (ui (run [SubmitClicked, EvaluationSettled 0 reply] ?w))
        = Some (overallOf [])"
    unfolding guard_idle c evaluate_no_cases list.size by simp_all
  show "overallSubmissionStatus (ui (run [SubmitClicked, EvaluationSettled 0 reply] ?w))
      = Some Accepted"
    unfolding o by (simp add: overallOf_all)
  show "map t_status (attempts (run [SubmitClicked, EvaluationSettled 0 reply] ?w)) = [Passed]"
    unfolding a by (simp add: attemptOf_status)
  show "map score (attempts (run [SubmitClicked, EvaluationSettled 0 reply] ?w)) = [NaN]"
    unfolding a by (simp add: attemptOf_score submissionScore_def)
qed

section \<open>Input stripping: the claims\<close>

text \<open>
  C9. Stripping works line by line: of every line that contains an equals sign only the
  text after the first equals sign is forwarded, trimmed, and every other line is
  forwarded trimmed. Stripping \<open>"nums = [1,2,3]\ntarget = 5"\<close> gives
  \<open>"[1,2,3]\n5"\<close>, and the bare value \<open>"[1,2,3]"\<close> is returned unchanged.
\<close>

theorem extractInputValue_spec:
  "extractInputValue input = join_nl (map stripLine_spec (split_nl input))
   \<and> extractInputValue (''nums = [1,2,3]'' @ NL # ''target = 5'') = ''[1,2,3]'' @ NL # ''5''
   \<and> extractInputValue ''[1,2,3]'' = ''[1,2,3]''"
proof -
  have "stripLine = stripLine_spec"
    by (rule ext) (rule stripLine_eq_spec)
  then have general: "extractInputValue input = join_nl (map stripLine_spec (split_nl input))"
    by (simp add: extractInputValue_def)
  have two_lines:
    "extractInputValue (''nums = [1,2,3]'' @ NL # ''target = 5'') = ''[1,2,3]'' @ NL # ''5''"
    by (simp add: extractInputValue_def stripLine_def substring_def trim_def
        isWhiteSpace_def NL_def Let_def)
  have bare: "extractInputValue ''[1,2,3]'' = ''[1,2,3]''"
    by (simp add: extractInputValue_def stripLine_def substring_def trim_def
        isWhiteSpace_def NL_def Let_def)
  from general two_lines bare show ?thesis by blast
qed

text \<open>
  C10. Stripping keeps the line structure: the output has as many newline-separated
  lines as the input, and stripping \<open>a + "\n" + b\<close> gives the stripped \<open>a\<close>, a
  newline and the stripped \<open>b\<close>.
\<close>

theorem extractInputValue_lines:
  "lineCount (extractInputValue input) = lineCount input
   \<and> extractInputValue (a @ NL # b) = extractInputValue a @ NL # extractInputValue b"
proof -
  have ne: "map stripLine (split_nl input) \<noteq> []"
    by (simp add: split_nl_nonempty)
  have "\<forall>l \<in> set (map stripLine (split_nl input)). NL \<notin> set l"
    using split_nl_no_NL stripLine_no_NL by auto
  with ne have "split_nl (join_nl (map stripLine (split_nl input))) = map stripLine (split_nl input)"
    by (rule split_join_nl)
  then have count: "lineCount (extractInputValue input) = lineCount input"
    by (simp add: lineCount_def extractInputValue_def)
  have distrib: "extractInputValue (a @ NL # b) = extractInputValue a @ NL # extractInputValue b"
    by (simp add: extractInputValue_def split_nl_append join_nl_append split_nl_nonempty)
  from count distrib show ?thesis by blast
qed

section \<open>The Diagnostic Extractor: the claim\<close>

lemma js_of_rat_7: "js_of_rat 7 = Fin 7"
  by (simp add: js_of_rat_def fl_7 Let_def)

lemma parseInt10_12: "parseInt10 (Some ''12'') = Fin 12"
proof -
  have "takeWhile isDigit ''12'' = ''12''" by code_simp
  moreover have "decimalValue ''12'' = 12" by code_simp
  ultimately show ?thesis by (simp add: parseInt10_def js_of_rat_12)
qed

lemma parseInt10_7: "parseInt10 (Some ''7'') = Fin 7"
proof -
  have "takeWhile isDigit ''7'' = ''7''" by code_simp
  moreover have "decimalValue ''7'' = 7" by code_simp
  ultimately show ?thesis by (simp add: parseInt10_def js_of_rat_7)
qed

lemma extract_file_line:
  "extract_spec True ''script.py:12: SyntaxError: invalid syntax''
     = Some \<lparr>lineNumber = Fin 12, message = ''script.py:12: SyntaxError: invalid syntax''\<rparr>"
proof -
  have "firstShape True ''script.py:12: SyntaxError: invalid syntax'' = Some ''12''"
    by code_simp
  moreover have "trim ''script.py:12: SyntaxError: invalid syntax''
      = ''script.py:12: SyntaxError: invalid syntax''"
    by code_simp
  ultimately show ?thesis
    unfolding extract_spec_def by (simp add: parseInt10_12)
qed

lemma extract_no_location:
  "extract_spec True ''Some generic failure with no location''
     = Some \<lparr>lineNumber = Fin 1, message = ''Some generic failure with no location''\<rparr>"
proof -
  have "firstShape True ''Some generic failure with no location'' = None"
    by code_simp
  moreover have "trim ''Some generic failure with no location''
      = ''Some generic failure with no location''"
    by code_simp
  ultimately show ?thesis
    unfolding extract_spec_def by simp
qed

lemma extract_upper_case:
  "extract_spec True ''LINE 7'' = Some \<lparr>lineNumber = Fin 7, message = ''LINE 7''\<rparr>"
proof -
  have "firstShape True ''LINE 7'' = Some ''7''" by code_simp
  moreover have "trim ''LINE 7'' = ''LINE 7''" by code_simp
  ultimately show ?thesis
    unfolding extract_spec_def by (simp add: parseInt10_7)
qed

lemma extract_upper_case_literal:
  "extract_spec False ''LINE 7'' = Some \<lparr>lineNumber = Fin 1, message = ''LINE 7''\<rparr>"
proof -
  have "firstShape False ''LINE 7'' = None" by code_simp
  moreover have "trim ''LINE 7'' = ''LINE 7''" by code_simp
  ultimately show ?thesis
    unfolding extract_spec_def by simp
qed

text \<open>
  C7, as the code has it. On the empty text the extractor returns nothing. On any other
  text it takes the leftmost position at which one of the shapes \<open>path:digits\<close>,
  \<open>line digits\<close>, \<open>[Line digits]\<close> is found (tried in this order at each position, the
  words \<open>line\<close> and \<open>Line\<close> in any capitalisation), and the digits found there are the
  line number; with no shape anywhere the line number is 1. The message is the whole
  text, trimmed.
\<close>

theorem parseError_extract_spec:
  "parseError raw = extract_spec True raw
   \<and> parseError ''script.py:12: SyntaxError: invalid syntax''
       = Some \<lparr>lineNumber = Fin 12, message = ''script.py:12: SyntaxError: invalid syntax''\<rparr>
   \<and> parseError [] = None
   \<and> parseError ''Some generic failure with no location''
       = Some \<lparr>lineNumber = Fin 1, message = ''Some generic failure with no location''\<rparr>"
proof -
  have "parseError [] = None" by (simp add: parseError_def)
  then show ?thesis
    using parseError_extract [of raw] extract_file_line extract_no_location
    by (simp only: parseError_extract simp_thms)
qed

text \<open>
  C7 as stated takes \<open>line \<close> as a literal: the text \<open>LINE 7\<close> then has no shape and
  gets line 1. The code matches without regard to case and reports line 7.
\<close>

theorem parseError_upper_case:
  "parseError ''LINE 7'' = Some \<lparr>lineNumber = Fin 7, message = ''LINE 7''\<rparr>
   \<and> extract_spec False ''LINE 7'' = Some \<lparr>lineNumber = Fin 1, message = ''LINE 7''\<rparr>
   \<and> parseError ''LINE 7'' \<noteq> extract_spec False ''LINE 7''"
  by (simp add: parseError_extract extract_upper_case extract_upper_case_literal)

section \<open>Submit: the claims\<close>

text \<open>
  In the claims about one Submit, the Submit is invoked through the handler of the last
  render, and that render saw a signed-in user, a problem and \<open>isExecuting\<close> false;
  otherwise the handler returns at once.
\<close>

text \<open>
  C1. When the judge's results hold a result that is not Accepted, the overall status of
  the Submit is the status of the first such result, in the order of the results; when
  every result is Accepted, it is Accepted. (The Submit completes when the judge has
  returned no more results than there are hidden cases.)
\<close>

theorem submit_overall_status:
  assumes "user (rendered w) = Some uid" "activeCodingProblem (rendered w) = Some problem"
    "\<not> isExecuting (rendered w)" "length results \<le> length (testCases problem)"
  shows "\<exists>w'. submit results w = Inr w'
     \<and> ((\<forall>r \<in> set results. status r = Accepted)
          \<longrightarrow> overallSubmissionStatus (ui w') = Some Accepted)
     \<and> (\<forall>i < length results.
          status (results ! i) \<noteq> Accepted \<longrightarrow> (\<forall>j < i. status (results ! j) = Accepted)
          \<longrightarrow> overallSubmissionStatus (ui w') = Some (status (results ! i)))"
proof -
  note out = submit_outcome [OF assms]
  obtain w' where w': "submit results w = Inr w'"
    using out by (cases "submit results w") simp_all
  have o: "overallSubmissionStatus (ui w') = Some (overallOf results)"
    using out unfolding w' by simp
  have "(\<forall>r \<in> set results. status r = Accepted)
      \<longrightarrow> overallSubmissionStatus (ui w') = Some Accepted"
    unfolding o using overallOf_all by simp
  moreover have "\<forall>i < length results.
      status (results ! i) \<noteq> Accepted \<longrightarrow> (\<forall>j < i. status (results ! j) = Accepted)
      \<longrightarrow> overallSubmissionStatus (ui w') = Some (status (results ! i))"
    unfolding o using overallOf_first by simp
  ultimately show ?thesis using w' by simp
qed

theorem submit_overall_status_witness:
  "\<exists>w'. submit [verdict Accepted, verdict WrongAnswer, verdict RuntimeError]
            (idleSession (someProblem (hiddenCases 3))) = Inr w'
     \<and> overallSubmissionStatus (ui w') = Some WrongAnswer"
proof -
  let ?rs = "[verdict Accepted, verdict WrongAnswer, verdict RuntimeError]"
  let ?p = "someProblem (hiddenCases 3)"
  have len: "length ?rs \<le> length (testCases ?p)"
    by (simp add: testCases_someProblem hiddenCases_def)
  from submit_overall_status [OF guard_idle(1) guard_idle(2) guard_idle(3) len]
  obtain w' where w': "submit ?rs (idleSession ?p) = Inr w' \<and>
      ((\<forall>r \<in> set ?rs. status r = Accepted) \<longrightarrow> overallSubmissionStatus (ui w') = Some Accepted) \<and>
      (\<forall>i < length ?rs.
          status (?rs ! i) \<noteq> Accepted \<longrightarrow> (\<forall>j < i. status (?rs ! j) = Accepted)
          \<longrightarrow> overallSubmissionStatus (ui w') = Some (status (?rs ! i)))" ..
  then have f: "\<forall>i < length ?rs.
          status (?rs ! i) \<noteq> Accepted \<longrightarrow> (\<forall>j < i. status (?rs ! j) = Accepted)
          \<longrightarrow> overallSubmissionStatus (ui w') = Some (status (?rs ! i))"
    by (elim conjE)
  from f [rule_format, of 1] have "overallSubmissionStatus (ui w') = Some WrongAnswer"
    by (simp add: verdict_def)
  with w' show ?thesis by (intro exI [of _ w']) simp
qed

text \<open>
  C2, as the code has it. A Submit that completes calls the Attempt Recorder exactly
  once, whatever the outcome; the status of the recorded Attempt is Passed if and only
  if every result that the judge returned is Accepted, and Failed otherwise. These are
  the results of all the hidden cases when the judge returned one result per hidden
  case. One call of the recorder adds one document to the user's coding results when
  the store accepts it.
\<close>

theorem submit_records_one_attempt:
  assumes "user (rendered w) = Some uid" "activeCodingProblem (rendered w) = Some problem"
    "\<not> isExecuting (rendered w)" "length results \<le> length (testCases problem)"
  shows "\<exists>w' a. submit results w = Inr w'
     \<and> attempts w' = attempts w @ [a]
     \<and> (t_status a = Passed \<longleftrightarrow> (\<forall>r \<in> set results. status r = Accepted))
     \<and> (t_status a = Failed \<longleftrightarrow> (\<exists>r \<in> set results. status r \<noteq> Accepted))
     \<and> (length results = length (testCases problem) \<longrightarrow>
          (t_status a = Passed
             \<longleftrightarrow> (\<forall>i < length (testCases problem). status (results ! i) = Accepted)))
     \<and> handleCodingAttempt (Some uid) a True db = db @ [(uid, a)]"
proof -
  note out = submit_outcome [OF assms]
  let ?a = "attemptOf problem (language (rendered w)) (code (rendered w)) results"
  obtain w' where w': "submit results w = Inr w'"
    using out by (cases "submit results w") simp_all
  have a: "attempts w' = attempts w @ [?a]"
    using out unfolding w' by simp
  have h: "handleCodingAttempt (Some uid) ?a True db = db @ [(uid, ?a)]"
    by (simp add: handleCodingAttempt_def saveCodingResult_def)
  note st = attemptOf_status [of problem "language (rendered w)" "code (rendered w)" results]
  have every: "length results = length (testCases problem) \<longrightarrow>
      (t_status ?a = Passed
         \<longleftrightarrow> (\<forall>i < length (testCases problem). status (results ! i) = Accepted))"
    unfolding st(1) by (auto simp: all_set_conv_all_nth)
  show ?thesis
    using w' a h st every
    by (intro exI [of _ w'] exI [of _ ?a]) simp
qed

theorem submit_records_one_attempt_witness:
  "\<exists>w' a. submit [verdict Accepted, verdict TimeLimitExceeded]
              (idleSession (someProblem (hiddenCases 2))) = Inr w'
     \<and> attempts w' = [a] \<and> t_status a = Failed
     \<and> handleCodingAttempt (Some ''u1'') a True [] = [(''u1'', a)]"
proof -
  let ?rs = "[verdict Accepted, verdict TimeLimitExceeded]"
  let ?p = "someProblem (hiddenCases 2)"
  have len: "length ?rs \<le> length (testCases ?p)"
    by (simp add: testCases_someProblem hiddenCases_def)
  from submit_records_one_attempt [OF guard_idle(1) guard_idle(2) guard_idle(3) len, of "[]"]
  obtain w' where "\<exists>a. submit ?rs (idleSession ?p) = Inr w'
     \<and> attempts w' = attempts (idleSession ?p) @ [a]
     \<and> (t_status a = Passed \<longleftrightarrow> (\<forall>r \<in> set ?rs. status r = Accepted))
     \<and> (t_status a = Failed \<longleftrightarrow> (\<exists>r \<in> set ?rs. status r \<noteq> Accepted))
     \<and> (length ?rs = length (testCases ?p) \<longrightarrow>
          (t_status a = Passed \<longleftrightarrow> (\<forall>i < length (testCases ?p). status (?rs ! i) = Accepted)))
     \<and> handleCodingAttempt (Some ''u1'') a True [] = [] @ [(''u1'', a)]" ..
  then obtain a where "submit ?rs (idleSession ?p) = Inr w'
     \<and> attempts w' = attempts (idleSession ?p) @ [a]
     \<and> (t_status a = Passed \<longleftrightarrow> (\<forall>r \<in> set ?rs. status r = Accepted))
     \<and> (t_status a = Failed \<longleftrightarrow> (\<exists>r \<in> set ?rs. status r \<noteq> Accepted))
     \<and> (length ?rs = length (testCases ?p) \<longrightarrow>
          (t_status a = Passed \<longleftrightarrow> (\<forall>i < length (testCases ?p). status (?rs ! i) = Accepted)))
     \<and> handleCodingAttempt (Some ''u1'') a True [] = [] @ [(''u1'', a)]" ..
  then have "submit ?rs (idleSession ?p) = Inr w' \<and> attempts w' = [a] \<and> t_status a = Failed
      \<and> handleCodingAttempt (Some ''u1'') a True [] = [(''u1'', a)]"
    by (simp add: guard_idle verdict_def)
  then show ?thesis by (intro exI [of _ w'] exI [of _ a])
qed

text \<open>
  C2 as stated fails when the judge returns fewer results than there are hidden cases.
  With two hidden cases and an oracle that returns the single result Accepted, the
  Submit shows one result and records the Attempt as Passed, although the second hidden
  case has no result.
\<close>

theorem submit_passed_without_all_cases:
  "length (testCases (someProblem (hiddenCases 2))) = 2
   \<and> map (\<lambda>shown. status (result shown))
       (the (submissionResults
          (ui (run [SubmitClicked, EvaluationSettled 0 (OracleResults [verdict Accepted])]
                 (idleSession (someProblem (hiddenCases 2)))))))
     = [Accepted]
   \<and> map t_status
       (attempts (run [SubmitClicked, EvaluationSettled 0 (OracleResults [verdict Accepted])]
                    (idleSession (someProblem (hiddenCases 2)))))
     = [Passed]"
proof -
  let ?run = "run [SubmitClicked, EvaluationSettled 0 (OracleResults [verdict Accepted])]
      (idleSession (someProblem (hiddenCases 2)))"
  have two: "length (testCases (someProblem (hiddenCases 2))) = 2"
    by (simp add: testCases_someProblem hiddenCases_def)
  have "map (\<lambda>shown. status (result shown)) (the (submissionResults (ui ?run)))
      = map status (map result (the (submissionResults (ui ?run))))"
    by (simp add: comp_def)
  then have shown: "map (\<lambda>shown. status (result shown)) (the (submissionResults (ui ?run)))
      = [Accepted]"
    unfolding run_short_reply(2) by (simp add: verdict_def)
  have recorded: "map t_status (attempts ?run) = [Passed]"
    unfolding run_short_reply(1) by (simp add: attemptOf_status verdict_def)
  from two shown recorded show ?thesis by (intro conjI)
qed

text \<open>
  C3. A Submit for a problem with no hidden test case completes with the overall status
  Accepted and records an Attempt with status Passed, but the score it records is
  \<open>NaN\<close> (zero divided by zero), not 100.
\<close>

theorem submit_without_hidden_cases:
  "overallSubmissionStatus
     (ui (run [SubmitClicked, EvaluationSettled 0 reply] (idleSession (someProblem []))))
     = Some Accepted
   \<and> map t_status
       (attempts (run [SubmitClicked, EvaluationSettled 0 reply] (idleSession (someProblem []))))
     = [Passed]
   \<and> map score
       (attempts (run [SubmitClicked, EvaluationSettled 0 reply] (idleSession (someProblem []))))
     = [NaN]"
proof -
  let ?w' = "run [SubmitClicked, EvaluationSettled 0 reply] (idleSession (someProblem []))"
  have overall: "overallSubmissionStatus (ui ?w') = Some Accepted"
    by (rule run_no_cases(1))
  have recorded: "map t_status (attempts ?w') = [Passed]"
    by (rule run_no_cases(2))
  have scores: "map score (attempts ?w') = [NaN]"
    by (rule run_no_cases(3))
  from overall recorded scores show ?thesis by (intro conjI)
qed

text \<open>
  C4, as the code has it. The score is taken over the results that the judge returned:
  for a Submit with \<open>n > 0\<close> results of which \<open>p\<close> are Accepted (all of them are
  counted, also those after the first failure), the recorded score is the Number written
  \<open>k / 100\<close>, where \<open>k\<close> is the binary64 value of \<open>(p / n) * 100\<close> in hundredths, rounded
  to the nearest integer, a tie going up. This \<open>k / 100\<close> is a two-decimal value nearest
  to the exact \<open>100 * p / n\<close>; it is the nearest one unless the exact value lies halfway
  between two of them. \<open>n\<close> is the number of hidden cases when the judge returned one
  result per hidden case. (An array has fewer than \<open>2 ^ 32\<close> elements.)
\<close>

theorem submit_score:
  assumes "user (rendered w) = Some uid" "activeCodingProblem (rendered w) = Some problem"
    "\<not> isExecuting (rendered w)" "length results \<le> length (testCases problem)"
    "results \<noteq> []" "length results < 2 ^ 32"
  shows "\<exists>w' a k. submit results w = Inr w'
     \<and> attempts w' = attempts w @ [a]
     \<and> k = \<lfloor>fl (fl (of_nat (length (filter (\<lambda>r. status r = Accepted) results))
                       / of_nat (length results)) * 100) * 100 + 1 / 2\<rfloor>
     \<and> score a = js_of_rat (of_int k / 100)
     \<and> \<bar>of_int k / 100
          - 100 * of_nat (length (filter (\<lambda>r. status r = Accepted) results))
              / of_nat (length results)\<bar> \<le> (1 / 200 :: rat)"
proof -
  let ?a = "attemptOf problem (language (rendered w)) (code (rendered w)) results"
  let ?p = "length (filter (\<lambda>r. status r = Accepted) results)"
  let ?n = "length results"
  define k :: int where "k = \<lfloor>fl (fl (of_nat ?p / of_nat ?n) * 100) * 100 + 1 / 2\<rfloor>"
  note out = submit_outcome [OF assms(1) assms(2) assms(3) assms(4)]
  obtain w' where w': "submit results w = Inr w'"
    using out by (cases "submit results w") simp_all
  have a: "attempts w' = attempts w @ [?a]"
    using out unfolding w' by simp
  have n0: "0 < ?n" using assms(5) by simp
  have pn: "?p \<le> ?n" by (rule length_filter_le)
  have sc: "score ?a = parseFloat (toFixed2 (js_mul (js_div (Fin (of_nat ?p)) (Fin (of_nat ?n)))
      (Fin 100)))"
    by (rule attemptOf_score_count)
  note r = score_rounding [OF n0 pn assms(6) k_def]
  have s: "score ?a = js_of_rat (of_int k / 100)"
    unfolding sc using r by (rule conjunct1)
  have b: "\<bar>of_int k / 100 - 100 * of_nat ?p / of_nat ?n\<bar> \<le> (1 / 200 :: rat)"
    using r by (rule conjunct2)
  show ?thesis
    using w' a k_def s b by (intro exI [of _ w'] exI [of _ ?a] exI [of _ k]) simp
qed

text \<open>Five Accepted results out of seven: the score is the Number written 71.43.\<close>

theorem submit_score_witness:
  "\<exists>w' a. submit [verdict Accepted, verdict Accepted, verdict WrongAnswer, verdict Accepted,
                  verdict Accepted, verdict RuntimeError, verdict Accepted]
              (idleSession (someProblem (hiddenCases 7))) = Inr w'
     \<and> attempts w' = [a] \<and> score a = js_of_rat (7143 / 100)"
proof -
  let ?rs = "[verdict Accepted, verdict Accepted, verdict WrongAnswer, verdict Accepted,
              verdict Accepted, verdict RuntimeError, verdict Accepted]"
  let ?p = "someProblem (hiddenCases 7)"
  let ?K = "\<lfloor>fl (fl (of_nat (length (filter (\<lambda>r. status r = Accepted) ?rs))
                       / of_nat (length ?rs)) * 100) * 100 + 1 / 2 :: rat\<rfloor>"
  have h4: "length ?rs \<le> length (testCases ?p)"
    by (simp add: testCases_someProblem hiddenCases_def)
  have h5: "?rs \<noteq> []" by simp
  have h6: "length ?rs < 2 ^ 32" by simp
  have cnt: "length (filter (\<lambda>r. status r = Accepted) ?rs) = 5"
    by (simp add: verdict_def)
  have n: "length ?rs = 7" by simp
  from submit_score [OF guard_idle(1) guard_idle(2) guard_idle(3) h4 h5 h6]
  obtain w' where "\<exists>a k. submit ?rs (idleSession ?p) = Inr w'
     \<and> attempts w' = attempts (idleSession ?p) @ [a]
     \<and> k = ?K
     \<and> score a = js_of_rat (of_int k / 100)
     \<and> \<bar>of_int k / 100
          - 100 * of_nat (length (filter (\<lambda>r. status r = Accepted) ?rs))
              / of_nat (length ?rs)\<bar> \<le> (1 / 200 :: rat)" ..
  then obtain a where "\<exists>k. submit ?rs (idleSession ?p) = Inr w'
     \<and> attempts w' = attempts (idleSession ?p) @ [a]
     \<and> k = ?K
     \<and> score a = js_of_rat (of_int k / 100)
     \<and> \<bar>of_int k / 100
          - 100 * of_nat (length (filter (\<lambda>r. status r = Accepted) ?rs))
              / of_nat (length ?rs)\<bar> \<le> (1 / 200 :: rat)" ..
  then obtain k :: int where k: "submit ?rs (idleSession ?p) = Inr w'
     \<and> attempts w' = attempts (idleSession ?p) @ [a]
     \<and> k = ?K
     \<and> score a = js_of_rat (of_int k / 100)
     \<and> \<bar>of_int k / 100
          - 100 * of_nat (length (filter (\<lambda>r. status r = Accepted) ?rs))
              / of_nat (length ?rs)\<bar> \<le> (1 / 200 :: rat)" ..
  from k have f1: "submit ?rs (idleSession ?p) = Inr w'"
    by (elim conjE)
  from k have f2: "attempts w' = attempts (idleSession ?p) @ [a]"
    by (elim conjE)
  from k have f3: "score a = js_of_rat (of_int k / 100)"
    by (elim conjE)
  from k have "\<bar>of_int k / 100
          - 100 * of_nat (length (filter (\<lambda>r. status r = Accepted) ?rs))
              / of_nat (length ?rs)\<bar> \<le> (1 / 200 :: rat)"
    by (elim conjE)
  then have "\<bar>of_int k / 100 - 100 * 5 / 7\<bar> \<le> (1 / 200 :: rat)"
    unfolding cnt n by simp
  then have "(of_int k :: rat) * 7 \<le> 50004" "49996 \<le> (of_int k :: rat) * 7"
    by linarith+
  then have "(of_int (k * 7) :: rat) \<le> of_int 50004" "(of_int 49996 :: rat) \<le> of_int (k * 7)"
    by simp_all
  then have "k * 7 \<le> 50004" "49996 \<le> k * 7"
    by (simp_all only: of_int_le_iff)
  then have "k = 7143" by presburger
  with f1 f2 f3 have "submit ?rs (idleSession ?p) = Inr w' \<and> attempts w' = [a]
      \<and> score a = js_of_rat (7143 / 100)"
    by (simp add: guard_idle)
  then show ?thesis by (intro exI [of _ w'] exI [of _ a])
qed

text \<open>
  C4 as stated fails when the judge returns fewer results than there are hidden cases:
  the score divides by the number of results. With two hidden cases and an oracle that
  returns the single result Accepted, the recorded score is 100, not 50.
\<close>

theorem submit_score_over_returned_results:
  "length (testCases (someProblem (hiddenCases 2))) = 2
   \<and> map score
       (attempts (run [SubmitClicked, EvaluationSettled 0 (OracleResults [verdict Accepted])]
                    (idleSession (someProblem (hiddenCases 2)))))
     = [Fin 100]"
proof -
  let ?run = "run [SubmitClicked, EvaluationSettled 0 (OracleResults [verdict Accepted])]
      (idleSession (someProblem (hiddenCases 2)))"
  let ?r = "(verdict Accepted)\<lparr>expectedOutput := Some ''4''\<rparr>"
  have two: "length (testCases (someProblem (hiddenCases 2))) = 2"
    by (simp add: testCases_someProblem hiddenCases_def)
  have cnt: "length (filter (\<lambda>r. status r = Accepted) [?r]) = 1"
    by (simp add: verdict_def)
  have half: "\<lfloor>20001 / 2 :: rat\<rfloor> = 10000" by linarith
  have "score (attemptOf (someProblem (hiddenCases 2)) JavaScript ''return n * n'' [?r])
      = parseFloat (toFixed2 (js_mul (js_div (Fin 1) (Fin 1)) (Fin 100)))"
    unfolding attemptOf_score_count cnt by simp
  also have "\<dots> = Fin 100"
    by (simp add: js_of_rat_1 js_of_rat_100 half)
  finally have "map score (attempts ?run) = [Fin 100]"
    unfolding run_short_reply(1) by simp
  with two show ?thesis by (intro conjI)
qed

text \<open>
  It also departs from the usual rounding where the exact value is a tie: 23 Accepted
  results out of 160 are 14.375 percent, and the recorded score is the Number written
  14.37, which is not the Number written 14.38.
\<close>

lemma submit_score_tie:
  "\<exists>w' a. submit (replicate 23 (verdict Accepted) @ replicate 137 (verdict WrongAnswer))
              (idleSession (someProblem (hiddenCases 160))) = Inr w'
     \<and> attempts w' = [a] \<and> score a = js_of_rat (1437 / 100)
     \<and> score a \<noteq> js_of_rat (1438 / 100)"
proof -
  let ?rs = "replicate 23 (verdict Accepted) @ replicate 137 (verdict WrongAnswer)"
  let ?p = "someProblem (hiddenCases 160)"
  let ?w = "idleSession ?p"
  let ?a = "attemptOf ?p (language (rendered ?w)) (code (rendered ?w)) ?rs"
  have len: "length ?rs \<le> length (testCases ?p)"
    by (simp add: testCases_someProblem hiddenCases_def)
  note out = submit_outcome [OF guard_idle(1) guard_idle(2) guard_idle(3) len]
  obtain w' where w': "submit ?rs ?w = Inr w'"
    using out by (cases "submit ?rs ?w") simp_all
  have a: "attempts w' = [?a]"
    using out unfolding w' by (simp add: guard_idle)
  have cnt: "length (filter (\<lambda>r. status r = Accepted) ?rs) = 23"
    by (simp add: verdict_def)
  have n: "length ?rs = 160" by simp
  have K: "(1437::int) = \<lfloor>fl (fl (of_nat 23 / of_nat 160) * 100) * 100 + 1 / 2 :: rat\<rfloor>"
    using hundredths_23_160 by simp
  have "score ?a = parseFloat (toFixed2 (js_mul (js_div (Fin (of_nat 23)) (Fin (of_nat 160)))
      (Fin 100)))"
    by (simp only: attemptOf_score_count cnt n)
  also have "\<dots> = js_of_rat (of_int 1437 / 100)"
    using score_rounding [of 160 23 1437, OF _ _ _ K] by simp
  finally have s: "score ?a = js_of_rat (1437 / 100)" by simp
  have d: "js_of_rat (1437 / 100) \<noteq> js_of_rat (1438 / 100)"
    unfolding js_of_rat_1437 js_of_rat_1438 by simp
  from w' a s d show ?thesis
    by (intro exI [of _ w'] exI [of _ ?a]) simp
qed

section \<open>The Judge Client: the claims\<close>

text \<open>
  C5, as the code has it. When the oracle call fails, the Judge Client with the
  catch-all returns one synthetic result per requested case: each has the status
  Compilation Error and the compile output ``Evaluation failed due to AI error.''. A
  Submit whose oracle call fails then records exactly one Attempt; its status is Failed
  when the problem has at least one hidden case.
\<close>

theorem judge_failure_synthetic:
  assumes "user (rendered w) = Some uid" "activeCodingProblem (rendered w) = Some problem"
    "\<not> isExecuting (rendered w)" "testCases problem \<noteq> []"
  shows "evaluateCodeWithAI lang src cases problem OracleFailure
       = replicate (length cases) syntheticResult
     \<and> status syntheticResult = CompilationError
     \<and> compile_output syntheticResult = Some ''Evaluation failed due to AI error.''
     \<and> (\<exists>a. attempts (run [SubmitClicked, EvaluationSettled (length (evaluations w)) OracleFailure] w)
              = attempts w @ [a]
            \<and> t_status a = Failed)"
proof -
  let ?rs = "evaluateCodeWithAI (language (rendered w)) (code (rendered w)) (submitCases problem) problem
      OracleFailure"
  let ?a = "attemptOf problem (language (rendered w)) (code (rendered w)) ?rs"
  have "0 < length (submitCases problem)"
    using assms(4) by (simp add: submitCases_length)
  then have "syntheticResult \<in> set ?rs"
    unfolding evaluate_failure by simp
  moreover have "status syntheticResult \<noteq> Accepted"
    by (simp add: syntheticResult_def)
  ultimately have "\<exists>r \<in> set ?rs. status r \<noteq> Accepted" by blast
  then have f: "t_status ?a = Failed" by (simp only: attemptOf_status)
  from run_submit_outcome [OF assms(1) assms(2) assms(3), of OracleFailure]
  have "attempts (run [SubmitClicked, EvaluationSettled (length (evaluations w)) OracleFailure] w)
      = attempts w @ [?a]"
    by simp
  with f have "\<exists>a. attempts
        (run [SubmitClicked, EvaluationSettled (length (evaluations w)) OracleFailure] w)
          = attempts w @ [a] \<and> t_status a = Failed"
    by (intro exI [of _ ?a]) simp
  then show ?thesis
    by (simp add: evaluate_failure syntheticResult_def)
qed

theorem judge_failure_synthetic_witness:
  "evaluateCodeWithAI JavaScript [] (submitCases (someProblem (hiddenCases 2)))
       (someProblem (hiddenCases 2)) OracleFailure
     = [syntheticResult, syntheticResult]
   \<and> (\<exists>a. attempts (run [SubmitClicked, EvaluationSettled 0 OracleFailure]
                      (idleSession (someProblem (hiddenCases 2)))) = [a]
          \<and> t_status a = Failed)"
proof -
  let ?p = "someProblem (hiddenCases 2)"
  have h4: "testCases ?p \<noteq> []"
    by (simp add: testCases_someProblem hiddenCases_def)
  have n: "length (submitCases ?p) = 2"
    by (simp add: submitCases_length testCases_someProblem hiddenCases_def)
  have two: "replicate 2 syntheticResult = [syntheticResult, syntheticResult]"
    by (simp add: numeral_2_eq_2)
  from judge_failure_synthetic [OF guard_idle(1) guard_idle(2) guard_idle(3) h4,
      of JavaScript "[]" "submitCases ?p"]
  show ?thesis
    unfolding n two guard_idle by simp
qed

text \<open>
  With no hidden case the synthetic list is empty as well, and the Attempt of a Submit
  whose oracle call fails is recorded as Passed.
\<close>

theorem judge_failure_no_cases:
  "map t_status
     (attempts (run [SubmitClicked, EvaluationSettled 0 OracleFailure]
                  (idleSession (someProblem []))))
     = [Passed]
   \<and> map t_status
       (attempts (run [SubmitClicked, EvaluationSettled 0 OracleFailure]
                    (idleSession (someProblem []))))
     \<noteq> [Failed]"
  by (simp add: run_no_cases(2))

text \<open>
  C6, as the code has it. The Judge Client returns the oracle's results in the oracle's
  order, each one unchanged but for its expected output, which is that of the case at
  the same position. When the oracle call fails, or the oracle returns more results than
  cases, it returns one synthetic result per case; when the oracle returns fewer results
  than cases it returns those, fewer than requested. The orchestrator does not compare
  lengths: it shows and aggregates any list that is not longer than the list of cases.
\<close>

theorem judge_results_in_order:
  "evaluateCodeWithAI lang src cases problem OracleFailure
     = replicate (length cases) syntheticResult
   \<and> (length cases < length rs \<longrightarrow>
        evaluateCodeWithAI lang src cases problem (OracleResults rs)
          = replicate (length cases) syntheticResult)
   \<and> (length rs \<le> length cases \<longrightarrow>
        evaluateCodeWithAI lang src cases problem (OracleResults rs)
          = map (\<lambda>(res, c). res\<lparr>expectedOutput := c_expectedOutput c\<rparr>) (zip rs cases))
   \<and> (length results \<le> length (testCases problem) \<longrightarrow>
        (case submitSettled problem lang src results w of
           Inl err \<Rightarrow> False
         | Inr w' \<Rightarrow> map result (the (submissionResults (ui w'))) = results
                      \<and> overallSubmissionStatus (ui w') = Some (overallOf results)))"
proof -
  have failed: "evaluateCodeWithAI lang src cases problem OracleFailure
      = replicate (length cases) syntheticResult"
    by (rule evaluate_failure)
  have longer: "length cases < length rs \<longrightarrow>
        evaluateCodeWithAI lang src cases problem (OracleResults rs)
          = replicate (length cases) syntheticResult"
    by (simp add: evaluate_too_many)
  have in_order: "length rs \<le> length cases \<longrightarrow>
        evaluateCodeWithAI lang src cases problem (OracleResults rs)
          = map (\<lambda>(res, c). res\<lparr>expectedOutput := c_expectedOutput c\<rparr>) (zip rs cases)"
    using evaluate_results [of rs cases lang src problem] by simp
  have processed: "length results \<le> length (testCases problem) \<longrightarrow>
        (case submitSettled problem lang src results w of
           Inl err \<Rightarrow> False
         | Inr w' \<Rightarrow> map result (the (submissionResults (ui w'))) = results
                      \<and> overallSubmissionStatus (ui w') = Some (overallOf results))"
  proof
    assume "length results \<le> length (testCases problem)"
    from submitSettled_outcome [OF this, where lang = lang and src = src and w = w]
    show "case submitSettled problem lang src results w of
           Inl err \<Rightarrow> False
         | Inr w' \<Rightarrow> map result (the (submissionResults (ui w'))) = results
                      \<and> overallSubmissionStatus (ui w') = Some (overallOf results)"
      by (cases "submitSettled problem lang src results w") simp_all
  qed
  from failed longer in_order processed show ?thesis by (intro conjI)
qed

text \<open>Two cases and two results, each with output and time: they come back in their
  order and with all their fields, the expected output being that of the case.\<close>

theorem judge_results_in_order_witness:
  "evaluateCodeWithAI JavaScript [] (submitCases (someProblem (hiddenCases 2)))
     (someProblem (hiddenCases 2))
     (OracleResults [(verdict WrongAnswer)\<lparr>stdout := Some ''5'', time := Some ''0.02''\<rparr>,
                     (verdict Accepted)\<lparr>stdout := Some ''4'', time := Some ''0.01''\<rparr>])
     = [(verdict WrongAnswer)\<lparr>stdout := Some ''5'', time := Some ''0.02'',
                                expectedOutput := Some ''4''\<rparr>,
        (verdict Accepted)\<lparr>stdout := Some ''4'', time := Some ''0.01'',
                             expectedOutput := Some ''4''\<rparr>]"
proof -
  let ?p = "someProblem (hiddenCases 2)"
  let ?rs = "[(verdict WrongAnswer)\<lparr>stdout := Some ''5'', time := Some ''0.02''\<rparr>,
              (verdict Accepted)\<lparr>stdout := Some ''4'', time := Some ''0.01''\<rparr>]"
  have c: "submitCases ?p
      = [\<lparr>stdin = extractInputValue ''n = 2'', c_expectedOutput = Some ''4''\<rparr>,
         \<lparr>stdin = extractInputValue ''n = 2'', c_expectedOutput = Some ''4''\<rparr>]"
    by (simp add: submitCases_def testCases_someProblem hiddenCases_def numeral_2_eq_2)
  from judge_results_in_order [of JavaScript "[]" "submitCases ?p" ?p ?rs "[]" "idleSession ?p"]
  have "evaluateCodeWithAI JavaScript [] (submitCases ?p) ?p (OracleResults ?rs)
      = map (\<lambda>(res, c). res\<lparr>expectedOutput := c_expectedOutput c\<rparr>) (zip ?rs (submitCases ?p))"
    unfolding c by simp
  then show ?thesis unfolding c by simp
qed

text \<open>
  Two results were requested and the oracle returns one, Accepted: the Judge Client
  returns that one result, and the Submit is shown as Accepted and recorded as Passed.
\<close>

theorem judge_short_response:
  "length (evaluateCodeWithAI JavaScript ''return n * n'' (submitCases (someProblem (hiddenCases 2)))
             (someProblem (hiddenCases 2)) (OracleResults [verdict Accepted]))
     = 1
   \<and> overallSubmissionStatus
       (ui (run [SubmitClicked, EvaluationSettled 0 (OracleResults [verdict Accepted])]
              (idleSession (someProblem (hiddenCases 2)))))
     = Some Accepted
   \<and> map t_status
       (attempts (run [SubmitClicked, EvaluationSettled 0 (OracleResults [verdict Accepted])]
                    (idleSession (someProblem (hiddenCases 2)))))
     = [Passed]"
proof -
  let ?p = "someProblem (hiddenCases 2)"
  let ?w = "idleSession ?p"
  let ?rs = "evaluateCodeWithAI JavaScript ''return n * n'' (submitCases ?p) ?p
      (OracleResults [verdict Accepted])"
  have n: "length [verdict Accepted] \<le> length (submitCases ?p)"
    by (simp add: submitCases_length testCases_someProblem hiddenCases_def)
  have l: "length ?rs = 1" and s: "map status ?rs = [Accepted]"
    using evaluate_in_order(1,2) [OF n] by (simp_all add: verdict_def)
  have all: "\<forall>r \<in> set ?rs. status r = Accepted"
  proof
    fix r assume "r \<in> set ?rs"
    then have "status r \<in> set (map status ?rs)" by simp
    then show "status r = Accepted" unfolding s by simp
  qed
  have lc: "language (rendered ?w) = JavaScript" "code (rendered ?w) = ''return n * n''"
    by (simp_all add: idleSession_def idleState_def)
  from run_submit_outcome [OF guard_idle(1) guard_idle(2) guard_idle(3),
      of ?p "OracleResults [verdict Accepted]"]
  have a: "attempts (run [SubmitClicked, EvaluationSettled 0 (OracleResults [verdict Accepted])] ?w)
        = [attemptOf ?p JavaScript ''return n * n'' ?rs]"
    and o: "overallSubmissionStatus
        (ui (run [SubmitClicked, EvaluationSettled 0 (OracleResults [verdict Accepted])] ?w))
        = Some (overallOf ?rs)"
    unfolding guard_idle lc list.size by simp_all
  have "overallOf ?rs = Accepted" using all by (rule overallOf_all)
  moreover have "t_status (attemptOf ?p JavaScript ''return n * n'' ?rs) = Passed"
    using all by (simp only: attemptOf_status)
  ultimately show ?thesis
    unfolding a o using l by simp
qed

section \<open>Single flight\<close>
























text \<open>
  It also fails when Submit is invoked twice through the handler of one render (two
  calls by a caller that holds the handler, or two invocations before the component is
  rendered again): the second invocation reads the same \<open>isExecuting\<close>, still false, and
  starts a second evaluation.
\<close>

lemma second_flight_on_one_render:
  "length (evaluations (run [SubmitClicked, SubmitClicked]
                          (idleSession (someProblem (hiddenCases 1))))) = 2
   \<and> \<not> singleFlight (run [SubmitClicked, SubmitClicked]
                        (idleSession (someProblem (hiddenCases 1))))"
proof -
  let ?w0 = "idleSession (someProblem (hiddenCases 1))"
  define w1 where "w1 = handleSubmitCode (rendered ?w0) ?w0"
  have r1: "rendered w1 = rendered ?w0"
    unfolding w1_def by (simp add: handleSubmitCode_def split: option.splits)
  have r: "run [SubmitClicked, SubmitClicked] ?w0 = handleSubmitCode (rendered ?w0) w1"
    unfolding r1 [symmetric] by (simp only: run_def foldl.simps step.simps(3) w1_def)
  from handleSubmitCode_started [OF guard_idle(1) guard_idle(2) guard_idle(3), of _ ?w0]
  obtain ev1 where e1: "evaluations w1 = [ev1]"
    unfolding w1_def guard_idle by auto
  from handleSubmitCode_started [OF guard_idle(1) guard_idle(2) guard_idle(3), of _ w1]
  obtain ev2 where e2: "evaluations (handleSubmitCode (rendered ?w0) w1) = [ev1, ev2]"
    unfolding e1 by auto
  show ?thesis
    unfolding r singleFlight_def e2 by simp
qed

end
